theory Spec2Isabelle
  imports Main
begin

section \<open>The data model of \<^verbatim>\<open>src/DoubleLinkedList/index.ts\<close>\<close>

text \<open>
  \<^verbatim>\<open>index.ts\<close> holds two revisions of the list.  The embedding follows the
  tuple-based one (the one the test-suite with \<^verbatim>\<open>getNodeValue\<close>,
  \<^verbatim>\<open>getNextNode\<close> exercises);  the operations of the class-based one that
  differ in their guards are embedded in a section of their own.  A node is the
  tuple \<^verbatim>\<open>[list, value, prev, next]\<close>, read and written through the constants
  \<^verbatim>\<open>LIST\<close>, \<^verbatim>\<open>VALUE\<close>, \<^verbatim>\<open>PREV\<close>, \<^verbatim>\<open>NEXT\<close>.  Nodes and
  lists are mutable objects that are compared by identity (\<^verbatim>\<open>node === this.lastNode\<close>,
  \<^verbatim>\<open>node[LIST] !== this\<close>), so both live in an explicit store and are named by
  references.  \<^verbatim>\<open>undefined\<close> is \<open>None\<close>.

  Every reference denotes an object: the node heap is a total function.  A cell at or
  beyond \<open>node_count\<close> has not been handed out by \<^verbatim>\<open>new\<close> yet; allocation
  overwrites the whole cell.  JavaScript numbers are modelled by \<open>int\<close> (the indices and
  counts the documentation speaks of are integers).
\<close>

type_synonym node_ref = nat
type_synonym list_ref = nat

record 'a DoubleLinkedListNode =
  LIST :: "list_ref option"
  VALUE :: 'a
  PREV :: "node_ref option"
  NEXT :: "node_ref option"

record DoubleLinkedList =
  firstNode :: "node_ref option"
  lastNode :: "node_ref option"
  length_dll :: int

record 'a store =
  node_heap :: "node_ref \<Rightarrow> 'a DoubleLinkedListNode"
  list_heap :: "list_ref \<Rightarrow> DoubleLinkedList"
  node_count :: nat
  list_count :: nat

text \<open>
  \<^verbatim>\<open>TypeError\<close>: a property of \<^verbatim>\<open>undefined\<close> is read or written (the
  dereferences behind a non-null assertion \<^verbatim>\<open>!\<close>).  \<^verbatim>\<open>RangeError\<close>:
  \<^verbatim>\<open>new Array(n)\<close> with a negative \<open>n\<close>.
\<close>

datatype error = TypeError | RangeError

subsection \<open>Reading and writing fields\<close>

definition write_LIST :: "'a store \<Rightarrow> node_ref \<Rightarrow> list_ref option \<Rightarrow> 'a store" where
  "write_LIST s a v = s\<lparr>node_heap := (node_heap s)(a := (node_heap s a)\<lparr>LIST := v\<rparr>)\<rparr>"

definition write_PREV :: "'a store \<Rightarrow> node_ref \<Rightarrow> node_ref option \<Rightarrow> 'a store" where
  "write_PREV s a v = s\<lparr>node_heap := (node_heap s)(a := (node_heap s a)\<lparr>PREV := v\<rparr>)\<rparr>"

definition write_NEXT :: "'a store \<Rightarrow> node_ref \<Rightarrow> node_ref option \<Rightarrow> 'a store" where
  "write_NEXT s a v = s\<lparr>node_heap := (node_heap s)(a := (node_heap s a)\<lparr>NEXT := v\<rparr>)\<rparr>"

definition write_firstNode :: "'a store \<Rightarrow> list_ref \<Rightarrow> node_ref option \<Rightarrow> 'a store" where
  "write_firstNode s l v = s\<lparr>list_heap := (list_heap s)(l := (list_heap s l)\<lparr>firstNode := v\<rparr>)\<rparr>"

definition write_lastNode :: "'a store \<Rightarrow> list_ref \<Rightarrow> node_ref option \<Rightarrow> 'a store" where
  "write_lastNode s l v = s\<lparr>list_heap := (list_heap s)(l := (list_heap s l)\<lparr>lastNode := v\<rparr>)\<rparr>"

definition write_length :: "'a store \<Rightarrow> list_ref \<Rightarrow> int \<Rightarrow> 'a store" where
  "write_length s l v = s\<lparr>list_heap := (list_heap s)(l := (list_heap s l)\<lparr>length_dll := v\<rparr>)\<rparr>"

text \<open>The tuple literal \<^verbatim>\<open>[this, item, prev, next]\<close> creates a new node object.\<close>

definition new_node :: "'a store \<Rightarrow> 'a DoubleLinkedListNode \<Rightarrow> node_ref \<times> 'a store" where
  "new_node s n =
     (node_count s, s\<lparr>node_heap := (node_heap s)(node_count s := n), node_count := Suc (node_count s)\<rparr>)"

text \<open>
  \<^verbatim>\<open>new DoubleLinkedList()\<close> before the constructor body runs: the field
  initialisers leave \<^verbatim>\<open>firstNode\<close> and \<^verbatim>\<open>lastNode\<close> undefined and set
  \<^verbatim>\<open>length = 0\<close>.
\<close>

definition new_list :: "'a store \<Rightarrow> list_ref \<times> 'a store" where
  "new_list s =
     (list_count s,
      s\<lparr>list_heap := (list_heap s)(list_count s := \<lparr>firstNode = None, lastNode = None, length_dll = 0\<rparr>),
        list_count := Suc (list_count s)\<rparr>)"

text \<open>The store of a program that has created no object yet; \<open>d\<close> fills the unused cells.\<close>

definition new_store :: "'a \<Rightarrow> 'a store" where
  "new_store d =
     \<lparr>node_heap = (\<lambda>_. \<lparr>LIST = None, VALUE = d, PREV = None, NEXT = None\<rparr>),
      list_heap = (\<lambda>_. \<lparr>firstNode = None, lastNode = None, length_dll = 0\<rparr>),
      node_count = 0, list_count = 0\<rparr>"

section \<open>The operations\<close>

subsection \<open>\<^verbatim>\<open>getLength\<close>, \<^verbatim>\<open>isEmpty\<close>, \<^verbatim>\<open>getHead\<close>, \<^verbatim>\<open>getTail\<close>\<close>

definition getLength :: "'a store \<Rightarrow> list_ref \<Rightarrow> int" where
  "getLength s this = length_dll (list_heap s this)"

definition isEmpty :: "'a store \<Rightarrow> list_ref \<Rightarrow> bool" where
  "isEmpty s this = (firstNode (list_heap s this) = None)"

definition getHead :: "'a store \<Rightarrow> list_ref \<Rightarrow> node_ref option" where
  "getHead s this = firstNode (list_heap s this)"

definition getTail :: "'a store \<Rightarrow> list_ref \<Rightarrow> node_ref option" where
  "getTail s this = lastNode (list_heap s this)"

subsection \<open>\<^verbatim>\<open>append\<close> and \<^verbatim>\<open>prepend\<close>\<close>

definition append_dll :: "'a store \<Rightarrow> list_ref \<Rightarrow> 'a \<Rightarrow> error + (node_ref \<times> 'a store)" where
  "append_dll s this item =
     (let (newNode, s1) =
            new_node s \<lparr>LIST = Some this, VALUE = item, PREV = lastNode (list_heap s this), NEXT = None\<rparr>
      in case (if length_dll (list_heap s1 this) = 0
               then Inr (write_firstNode s1 this (Some newNode))
               else (case lastNode (list_heap s1 this) of
                       None \<Rightarrow> Inl TypeError
                     | Some t \<Rightarrow> Inr (write_NEXT s1 t (Some newNode)))) of
           Inl e \<Rightarrow> Inl e
         | Inr s2 \<Rightarrow>
             (let s3 = write_lastNode s2 this (Some newNode);
                  s4 = write_length s3 this (length_dll (list_heap s3 this) + 1)
              in Inr (newNode, s4)))"

definition prepend :: "'a store \<Rightarrow> list_ref \<Rightarrow> 'a \<Rightarrow> error + (node_ref \<times> 'a store)" where
  "prepend s this item =
     (let (newNode, s1) =
            new_node s \<lparr>LIST = Some this, VALUE = item, PREV = None, NEXT = firstNode (list_heap s this)\<rparr>
      in case (if length_dll (list_heap s1 this) = 0
               then Inr (write_lastNode s1 this (Some newNode))
               else (case firstNode (list_heap s1 this) of
                       None \<Rightarrow> Inl TypeError
                     | Some f \<Rightarrow> Inr (write_PREV s1 f (Some newNode)))) of
           Inl e \<Rightarrow> Inl e
         | Inr s2 \<Rightarrow>
             (let s3 = write_firstNode s2 this (Some newNode);
                  s4 = write_length s3 this (length_dll (list_heap s3 this) + 1)
              in Inr (newNode, s4)))"

subsection \<open>\<^verbatim>\<open>remove\<close>\<close>

text \<open>
  The three branches of \<^verbatim>\<open>remove\<close>, in the order of the source: tail, head,
  middle.  Only the middle branch compares the owner; it is also the branch with the
  two unguarded dereferences \<^verbatim>\<open>prev![NEXT]\<close> and \<^verbatim>\<open>next![PREV]\<close>.  The
  result \<open>None\<close> of \<open>remove_unlink\<close> is the early \<^verbatim>\<open>return false\<close>.
\<close>

definition remove_unlink :: "'a store \<Rightarrow> list_ref \<Rightarrow> node_ref \<Rightarrow> error + 'a store option" where
  "remove_unlink s this node =
     (if Some node = lastNode (list_heap s this) then
        (let newLast = PREV (node_heap s node);
             s1 = write_lastNode s this newLast
         in case newLast of
              Some nl \<Rightarrow> Inr (Some (write_NEXT s1 nl None))
            | None \<Rightarrow> Inr (Some (write_firstNode s1 this None)))
      else if Some node = firstNode (list_heap s this) then
        (let newFirst = NEXT (node_heap s node);
             s1 = write_firstNode s this newFirst
         in case newFirst of
              Some nf \<Rightarrow> Inr (Some (write_PREV s1 nf None))
            | None \<Rightarrow> Inr (Some (write_lastNode s1 this None)))
      else if LIST (node_heap s node) \<noteq> Some this then Inr None
      else
        (let prev = PREV (node_heap s node);
             next = NEXT (node_heap s node)
         in case prev of
              None \<Rightarrow> Inl TypeError
            | Some p \<Rightarrow>
                (let s1 = write_NEXT s p next
                 in case next of
                      None \<Rightarrow> Inl TypeError
                    | Some n \<Rightarrow> Inr (Some (write_PREV s1 n prev)))))"

definition remove_dll :: "'a store \<Rightarrow> list_ref \<Rightarrow> node_ref \<Rightarrow> error + (bool \<times> 'a store)" where
  "remove_dll s this node =
     (case remove_unlink s this node of
        Inl e \<Rightarrow> Inl e
      | Inr None \<Rightarrow> Inr (False, s)
      | Inr (Some s1) \<Rightarrow>
          (let s2 = write_PREV s1 node None;
               s3 = write_NEXT s2 node None;
               s4 = write_LIST s3 node None;
               s5 = write_length s4 this (length_dll (list_heap s4 this) - 1)
           in Inr (True, s5)))"

subsection \<open>\<^verbatim>\<open>insertAfterNode\<close> and \<^verbatim>\<open>insertBeforeNode\<close>\<close>

definition insertAfterNode ::
  "'a store \<Rightarrow> list_ref \<Rightarrow> node_ref \<Rightarrow> 'a \<Rightarrow> error + (node_ref option \<times> 'a store)" where
  "insertAfterNode s this node item =
     (if LIST (node_heap s node) \<noteq> Some this then Inr (None, s)
      else if lastNode (list_heap s this) = Some node then
        (case append_dll s this item of Inl e \<Rightarrow> Inl e | Inr (n, s') \<Rightarrow> Inr (Some n, s'))
      else
        (let (newNode, s1) =
               new_node s \<lparr>LIST = Some this, VALUE = item, PREV = Some node, NEXT = NEXT (node_heap s node)\<rparr>
         in case NEXT (node_heap s1 node) of
              None \<Rightarrow> Inl TypeError
            | Some nx \<Rightarrow>
                (let s2 = write_PREV s1 nx (Some newNode);
                     s3 = write_NEXT s2 node (Some newNode);
                     s4 = write_length s3 this (length_dll (list_heap s3 this) + 1)
                 in Inr (Some newNode, s4))))"

definition insertBeforeNode ::
  "'a store \<Rightarrow> list_ref \<Rightarrow> node_ref \<Rightarrow> 'a \<Rightarrow> error + (node_ref option \<times> 'a store)" where
  "insertBeforeNode s this node item =
     (if LIST (node_heap s node) \<noteq> Some this then Inr (None, s)
      else if firstNode (list_heap s this) = Some node then
        (case prepend s this item of Inl e \<Rightarrow> Inl e | Inr (n, s') \<Rightarrow> Inr (Some n, s'))
      else
        (let (newNode, s1) =
               new_node s \<lparr>LIST = Some this, VALUE = item, PREV = PREV (node_heap s node), NEXT = Some node\<rparr>
         in case PREV (node_heap s1 node) of
              None \<Rightarrow> Inl TypeError
            | Some pv \<Rightarrow>
                (let s2 = write_NEXT s1 pv (Some newNode);
                     s3 = write_PREV s2 node (Some newNode);
                     s4 = write_length s3 this (length_dll (list_heap s3 this) + 1)
                 in Inr (Some newNode, s4))))"

subsection \<open>The constructor and \<^verbatim>\<open>clear\<close>\<close>

text \<open>\<^verbatim>\<open>for (const item of items) { this.append(item); }\<close>\<close>

fun append_items :: "'a store \<Rightarrow> list_ref \<Rightarrow> 'a list \<Rightarrow> error + 'a store" where
  "append_items s this [] = Inr s"
| "append_items s this (item # items) =
     (case append_dll s this item of
        Inl e \<Rightarrow> Inl e
      | Inr (_, s1) \<Rightarrow> append_items s1 this items)"

definition constructor :: "'a store \<Rightarrow> 'a list \<Rightarrow> error + (list_ref \<times> 'a store)" where
  "constructor s items =
     (let (this, s1) = new_list s
      in if length items > 0
         then (case append_items s1 this items of Inl e \<Rightarrow> Inl e | Inr s2 \<Rightarrow> Inr (this, s2))
         else Inr (this, s1))"

text \<open>
  \<^verbatim>\<open>while (this.firstNode !== undefined) { this.remove(this.firstNode); }\<close> has no
  bound of its own: not returning is the value \<open>None\<close>.
\<close>

partial_function (option) clear :: "'a store \<Rightarrow> list_ref \<Rightarrow> (error + 'a store) option" where
  "clear s this =
     (case firstNode (list_heap s this) of
        None \<Rightarrow> Some (Inr s)
      | Some f \<Rightarrow>
          (case remove_dll s this f of
             Inl e \<Rightarrow> Some (Inl e)
           | Inr (_, s1) \<Rightarrow> clear s1 this))"

subsection \<open>\<^verbatim>\<open>toArray\<close>\<close>

text \<open>
  \<^verbatim>\<open>new Array<ItemT>(this.length)\<close> is an array of \<^verbatim>\<open>length\<close> holes (\<open>None\<close>);
  the assignment \<^verbatim>\<open>output[index] = v\<close> fills a hole, or extends the array when
  \<open>index\<close> is beyond its end.
\<close>

definition array_set :: "'a option list \<Rightarrow> nat \<Rightarrow> 'a \<Rightarrow> 'a option list" where
  "array_set output index v =
     (if index < length output then output[index := Some v]
      else output @ replicate (index - length output) None @ [Some v])"

partial_function (option) toArray_loop ::
  "'a store \<Rightarrow> node_ref option \<Rightarrow> nat \<Rightarrow> 'a option list \<Rightarrow> 'a option list option" where
  "toArray_loop s cursor index output =
     (case cursor of
        None \<Rightarrow> Some output
      | Some c \<Rightarrow>
          toArray_loop s (NEXT (node_heap s c)) (index + 1) (array_set output index (VALUE (node_heap s c))))"

definition toArray :: "'a store \<Rightarrow> list_ref \<Rightarrow> (error + 'a option list) option" where
  "toArray s this =
     (if length_dll (list_heap s this) < 0 then Some (Inl RangeError)
      else map_option Inr
             (toArray_loop s (firstNode (list_heap s this)) 0
                (replicate (nat (length_dll (list_heap s this))) None)))"

subsection \<open>\<^verbatim>\<open>indexOf\<close> and \<^verbatim>\<open>includes\<close>\<close>

text \<open>The two \<^verbatim>\<open>while\<close> loops of \<^verbatim>\<open>indexOf\<close>; the state is \<open>(cursor, index)\<close>.\<close>

partial_function (option) indexOf_skip ::
  "'a store \<Rightarrow> int \<Rightarrow> node_ref option \<Rightarrow> int \<Rightarrow> (node_ref option \<times> int) option" where
  "indexOf_skip s fromIndex cursor index =
     (case cursor of
        None \<Rightarrow> Some (cursor, index)
      | Some c \<Rightarrow>
          (if index < fromIndex
           then indexOf_skip s fromIndex (NEXT (node_heap s c)) (index + 1)
           else Some (cursor, index)))"

partial_function (option) indexOf_scan ::
  "'a store \<Rightarrow> 'a \<Rightarrow> node_ref option \<Rightarrow> int \<Rightarrow> int option" where
  "indexOf_scan s searchElement cursor index =
     (case cursor of
        None \<Rightarrow> Some (- 1)
      | Some c \<Rightarrow>
          (if VALUE (node_heap s c) = searchElement then Some index
           else indexOf_scan s searchElement (NEXT (node_heap s c)) (index + 1)))"

definition indexOf :: "'a store \<Rightarrow> list_ref \<Rightarrow> 'a \<Rightarrow> int \<Rightarrow> int option" where
  "indexOf s this searchElement fromIndex =
     (case indexOf_skip s fromIndex (firstNode (list_heap s this)) 0 of
        None \<Rightarrow> None
      | Some (cursor, index) \<Rightarrow> indexOf_scan s searchElement cursor index)"

definition includes_dll :: "'a store \<Rightarrow> list_ref \<Rightarrow> 'a \<Rightarrow> int \<Rightarrow> bool option" where
  "includes_dll s this searchElement fromIndex =
     map_option (\<lambda>r. r \<noteq> - 1) (indexOf s this searchElement fromIndex)"

subsection \<open>The iterator, \<^verbatim>\<open>forEach\<close>, \<^verbatim>\<open>map\<close> and \<^verbatim>\<open>find\<close>\<close>

text \<open>
  The iterator object closes over the variable \<^verbatim>\<open>current\<close>, which is its state;
  \<^verbatim>\<open>next()\<close> returns the result (\<open>None\<close> is \<^verbatim>\<open>{ done: true }\<close>) and the
  new state.
\<close>

definition iterator :: "'a store \<Rightarrow> list_ref \<Rightarrow> node_ref option" where
  "iterator s this = firstNode (list_heap s this)"

definition iterator_next :: "'a store \<Rightarrow> node_ref option \<Rightarrow> 'a option \<times> node_ref option" where
  "iterator_next s current =
     (case current of
        None \<Rightarrow> (None, current)
      | Some c \<Rightarrow> (Some (VALUE (node_heap s c)), NEXT (node_heap s c)))"

text \<open>
  The callbacks are code of the caller.  The callback of \<^verbatim>\<open>forEach\<close> returns nothing,
  so it is called for its effect: it is a function on a state \<open>'u\<close> of the caller.  The
  callback of \<^verbatim>\<open>map\<close> and the predicate of \<^verbatim>\<open>find\<close> are functions of
  \<^verbatim>\<open>(value, index, list)\<close>.  No callback touches the store of the lists.  The result
  of \<^verbatim>\<open>map\<close> is a list of the same store, so its element type is the one of the
  store.
\<close>

partial_function (option) forEach_loop ::
  "'a store \<Rightarrow> ('a \<Rightarrow> int \<Rightarrow> list_ref \<Rightarrow> 'u \<Rightarrow> 'u) \<Rightarrow> list_ref \<Rightarrow> node_ref option \<Rightarrow> int \<Rightarrow> 'u \<Rightarrow> 'u option" where
  "forEach_loop s callback this cursor index u =
     (case cursor of
        None \<Rightarrow> Some u
      | Some c \<Rightarrow>
          forEach_loop s callback this (NEXT (node_heap s c)) (index + 1)
            (callback (VALUE (node_heap s c)) index this u))"

definition forEach ::
  "'a store \<Rightarrow> list_ref \<Rightarrow> ('a \<Rightarrow> int \<Rightarrow> list_ref \<Rightarrow> 'u \<Rightarrow> 'u) \<Rightarrow> 'u \<Rightarrow> 'u option" where
  "forEach s this callback u = forEach_loop s callback this (firstNode (list_heap s this)) 0 u"

text \<open>
  \<^verbatim>\<open>map\<close>: \<^verbatim>\<open>cursor[NEXT]\<close> is read after \<^verbatim>\<open>result.append\<close>, in the
  store that call leaves.
\<close>

partial_function (option) map_loop ::
  "'a store \<Rightarrow> ('a \<Rightarrow> int \<Rightarrow> list_ref \<Rightarrow> 'a) \<Rightarrow> list_ref \<Rightarrow> list_ref \<Rightarrow> node_ref option \<Rightarrow> int
     \<Rightarrow> (error + 'a store) option" where
  "map_loop s callback this result cursor index =
     (case cursor of
        None \<Rightarrow> Some (Inr s)
      | Some c \<Rightarrow>
          (case append_dll s result (callback (VALUE (node_heap s c)) index this) of
             Inl e \<Rightarrow> Some (Inl e)
           | Inr (_, s1) \<Rightarrow> map_loop s1 callback this result (NEXT (node_heap s1 c)) (index + 1)))"

definition map_dll ::
  "'a store \<Rightarrow> list_ref \<Rightarrow> ('a \<Rightarrow> int \<Rightarrow> list_ref \<Rightarrow> 'a) \<Rightarrow> (error + (list_ref \<times> 'a store)) option" where
  "map_dll s this callback =
     (let (result, s1) = new_list s
      in case map_loop s1 callback this result (firstNode (list_heap s1 this)) 0 of
           None \<Rightarrow> None
         | Some (Inl e) \<Rightarrow> Some (Inl e)
         | Some (Inr s2) \<Rightarrow> Some (Inr (result, s2)))"

partial_function (option) find_loop ::
  "'a store \<Rightarrow> ('a \<Rightarrow> int \<Rightarrow> list_ref \<Rightarrow> bool) \<Rightarrow> list_ref \<Rightarrow> node_ref option \<Rightarrow> int \<Rightarrow> 'a option option" where
  "find_loop s predicate this cursor index =
     (case cursor of
        None \<Rightarrow> Some None
      | Some c \<Rightarrow>
          (if predicate (VALUE (node_heap s c)) index this then Some (Some (VALUE (node_heap s c)))
           else find_loop s predicate this (NEXT (node_heap s c)) (index + 1)))"

definition find_dll ::
  "'a store \<Rightarrow> list_ref \<Rightarrow> ('a \<Rightarrow> int \<Rightarrow> list_ref \<Rightarrow> bool) \<Rightarrow> 'a option option" where
  "find_dll s this predicate = find_loop s predicate this (firstNode (list_heap s this)) 0"

subsection \<open>\<^verbatim>\<open>push\<close>, \<^verbatim>\<open>pop\<close>, \<^verbatim>\<open>shift\<close>, \<^verbatim>\<open>unshift\<close>\<close>

definition push :: "'a store \<Rightarrow> list_ref \<Rightarrow> 'a \<Rightarrow> error + (node_ref \<times> 'a store)" where
  "push s this item = append_dll s this item"

definition pop :: "'a store \<Rightarrow> list_ref \<Rightarrow> error + ('a option \<times> 'a store)" where
  "pop s this =
     (case lastNode (list_heap s this) of
        None \<Rightarrow> Inr (None, s)
      | Some t \<Rightarrow>
          (let v = VALUE (node_heap s t)
           in case remove_dll s this t of
                Inl e \<Rightarrow> Inl e
              | Inr (_, s1) \<Rightarrow> Inr (Some v, s1)))"

definition shift :: "'a store \<Rightarrow> list_ref \<Rightarrow> error + ('a option \<times> 'a store)" where
  "shift s this =
     (case firstNode (list_heap s this) of
        None \<Rightarrow> Inr (None, s)
      | Some f \<Rightarrow>
          (let v = VALUE (node_heap s f)
           in case remove_dll s this f of
                Inl e \<Rightarrow> Inl e
              | Inr (_, s1) \<Rightarrow> Inr (Some v, s1)))"

definition unshift :: "'a store \<Rightarrow> list_ref \<Rightarrow> 'a \<Rightarrow> error + (node_ref \<times> 'a store)" where
  "unshift s this item = prepend s this item"

subsection \<open>\<^verbatim>\<open>getNodeAt\<close> and \<^verbatim>\<open>get\<close>\<close>

text \<open>
  \<^verbatim>\<open>for (let i = 0; i < fromHead && current; i += 1) { current = current[NEXT]; }\<close>
  and its mirror image: the first argument counts the iterations that are left.
\<close>

fun getNodeAt_fromHead :: "'a store \<Rightarrow> nat \<Rightarrow> node_ref option \<Rightarrow> node_ref option" where
  "getNodeAt_fromHead s 0 current = current"
| "getNodeAt_fromHead s (Suc k) current =
     (case current of
        None \<Rightarrow> None
      | Some c \<Rightarrow> getNodeAt_fromHead s k (NEXT (node_heap s c)))"

fun getNodeAt_fromTail :: "'a store \<Rightarrow> nat \<Rightarrow> node_ref option \<Rightarrow> node_ref option" where
  "getNodeAt_fromTail s 0 current = current"
| "getNodeAt_fromTail s (Suc k) current =
     (case current of
        None \<Rightarrow> None
      | Some c \<Rightarrow> getNodeAt_fromTail s k (PREV (node_heap s c)))"

definition getNodeAt :: "'a store \<Rightarrow> list_ref \<Rightarrow> int \<Rightarrow> node_ref option" where
  "getNodeAt s this index =
     (let length = length_dll (list_heap s this);
          actualIndex = (if index < 0 then length + index else index)
      in if actualIndex < 0 \<or> actualIndex \<ge> length then None
         else
           (let fromHead = actualIndex;
                fromTail = length - 1 - actualIndex
            in if fromHead \<le> fromTail
               then getNodeAt_fromHead s (nat fromHead) (firstNode (list_heap s this))
               else getNodeAt_fromTail s (nat fromTail) (lastNode (list_heap s this))))"

definition get :: "'a store \<Rightarrow> list_ref \<Rightarrow> int \<Rightarrow> 'a option" where
  "get s this index =
     (case getNodeAt s this index of
        None \<Rightarrow> None
      | Some node \<Rightarrow> Some (VALUE (node_heap s node)))"

subsection \<open>\<^verbatim>\<open>splice\<close>\<close>

text \<open>The three forms of the parameter \<^verbatim>\<open>start\<close>.\<close>

datatype start = Index int | Node node_ref | Undefined

text \<open>
  The deletion loop
  \<^verbatim>\<open>for (let i = 0; i < deleteCount && nodeToRemove; i += 1)\<close>; the counter is the
  number of iterations left, \<open>nat deleteCount\<close> at the start (none for a negative
  \<^verbatim>\<open>deleteCount\<close>).  It returns the final \<^verbatim>\<open>nodeToRemove\<close>.
\<close>

fun splice_delete ::
  "'a store \<Rightarrow> list_ref \<Rightarrow> list_ref \<Rightarrow> nat \<Rightarrow> node_ref option \<Rightarrow> error + (node_ref option \<times> 'a store)" where
  "splice_delete s this removed 0 nodeToRemove = Inr (nodeToRemove, s)"
| "splice_delete s this removed (Suc k) nodeToRemove =
     (case nodeToRemove of
        None \<Rightarrow> Inr (None, s)
      | Some node \<Rightarrow>
          (let nextNode = NEXT (node_heap s node)
           in case append_dll s removed (VALUE (node_heap s node)) of
                Inl e \<Rightarrow> Inl e
              | Inr (_, s1) \<Rightarrow>
                  (case remove_dll s1 this node of
                     Inl e \<Rightarrow> Inl e
                   | Inr (_, s2) \<Rightarrow> splice_delete s2 this removed k nextNode)))"

text \<open>
  The insertion loop before \<^verbatim>\<open>nodeToRemove\<close>, with the loop variable
  \<^verbatim>\<open>lastInserted\<close>.
\<close>

fun splice_insert ::
  "'a store \<Rightarrow> list_ref \<Rightarrow> node_ref \<Rightarrow> node_ref option \<Rightarrow> 'a list \<Rightarrow> error + 'a store" where
  "splice_insert s this nodeToRemove lastInserted [] = Inr s"
| "splice_insert s this nodeToRemove lastInserted (item # items) =
     (case lastInserted of
        Some li \<Rightarrow>
          (case insertAfterNode s this li item of
             Inl e \<Rightarrow> Inl e
           | Inr (r, s1) \<Rightarrow> splice_insert s1 this nodeToRemove r items)
      | None \<Rightarrow>
          (case insertBeforeNode s this nodeToRemove item of
             Inl e \<Rightarrow> Inl e
           | Inr (r, s1) \<Rightarrow> splice_insert s1 this nodeToRemove r items))"

text \<open>
  The preparation phase of \<^verbatim>\<open>splice\<close> normalises \<^verbatim>\<open>start\<close> to
  \<^verbatim>\<open>startNode\<close>.  The result \<open>None\<close> is the early return for a node of another
  list; \<open>Some startNode\<close> goes on to the deletion loop.
\<close>

definition splice_startNode :: "'a store \<Rightarrow> list_ref \<Rightarrow> start \<Rightarrow> node_ref option option" where
  "splice_startNode s this start =
     (case start of
        Undefined \<Rightarrow> Some None
      | Index i \<Rightarrow>
          (let length = length_dll (list_heap s this);
               actualStart = (if i < 0 then max 0 (length + i) else min i length)
           in Some (if actualStart \<ge> length then None else getNodeAt s this actualStart))
      | Node n \<Rightarrow>
          (if LIST (node_heap s n) \<noteq> Some this then None else Some (Some n)))"

text \<open>The result is the reference of the list \<^verbatim>\<open>removed\<close> and the new store.\<close>

definition splice_dll ::
  "'a store \<Rightarrow> list_ref \<Rightarrow> start \<Rightarrow> int \<Rightarrow> 'a list \<Rightarrow> error + (list_ref \<times> 'a store)" where
  "splice_dll s this start deleteCount items =
     (case splice_startNode s this start of
        None \<Rightarrow> Inr (new_list s)
      | Some startNode \<Rightarrow>
          (let (removed, s1) = new_list s
           in case splice_delete s1 this removed (nat deleteCount) startNode of
                Inl e \<Rightarrow> Inl e
              | Inr (nodeToRemove, s2) \<Rightarrow>
                  (if length items > 0 then
                     (case (case nodeToRemove of
                              Some n \<Rightarrow> splice_insert s2 this n None items
                            | None \<Rightarrow> append_items s2 this items) of
                        Inl e \<Rightarrow> Inl e
                      | Inr s3 \<Rightarrow> Inr (removed, s3))
                   else Inr (removed, s2))))"

section \<open>The class-based revision\<close>

text \<open>
  \<^verbatim>\<open>index.ts\<close> holds two revisions of the list.  The operations above are those of
  the tuple-based one (from line 922 on).  This section embeds, with the suffix \<open>_c\<close>,
  the operations of the class-based one (lines 38 to 884) that the claims refer to.
\<close>

text \<open>
  The class \<^verbatim>\<open>DoubleLinkedListNode\<close> with the fields \<^verbatim>\<open>list\<close>,
  \<^verbatim>\<open>value\<close>, \<^verbatim>\<open>previousNode\<close>, \<^verbatim>\<open>nextNode\<close>, and the class
  \<^verbatim>\<open>DoubleLinkedList\<close> with the cache \<^verbatim>\<open>allValues\<close>.
\<close>

record 'a node_c =
  list_c :: "list_ref option"
  value_c :: 'a
  previousNode :: "node_ref option"
  nextNode :: "node_ref option"

record 'a DoubleLinkedList_c =
  allValues :: "'a list option"
  firstNode_c :: "node_ref option"
  lastNode_c :: "node_ref option"
  length_c :: int

record 'a store_c =
  node_heap_c :: "node_ref \<Rightarrow> 'a node_c"
  list_heap_c :: "list_ref \<Rightarrow> 'a DoubleLinkedList_c"
  node_count_c :: nat
  list_count_c :: nat

text \<open>Field assignments \<^verbatim>\<open>node.f = v\<close> and \<^verbatim>\<open>this.f = v\<close>.\<close>

definition set_node :: "'a store_c \<Rightarrow> node_ref \<Rightarrow> ('a node_c \<Rightarrow> 'a node_c) \<Rightarrow> 'a store_c" where
  "set_node s a f = s\<lparr>node_heap_c := (node_heap_c s)(a := f (node_heap_c s a))\<rparr>"

definition set_list ::
  "'a store_c \<Rightarrow> list_ref \<Rightarrow> ('a DoubleLinkedList_c \<Rightarrow> 'a DoubleLinkedList_c) \<Rightarrow> 'a store_c" where
  "set_list s l f = s\<lparr>list_heap_c := (list_heap_c s)(l := f (list_heap_c s l))\<rparr>"

text \<open>\<^verbatim>\<open>new DoubleLinkedListNode<ItemT>(this, item)\<close> and \<^verbatim>\<open>new DoubleLinkedList<ItemT>()\<close>.\<close>

definition new_node_c :: "'a store_c \<Rightarrow> list_ref \<Rightarrow> 'a \<Rightarrow> node_ref \<times> 'a store_c" where
  "new_node_c s l item =
     (node_count_c s,
      s\<lparr>node_heap_c := (node_heap_c s)
            (node_count_c s := \<lparr>list_c = Some l, value_c = item, previousNode = None, nextNode = None\<rparr>),
        node_count_c := Suc (node_count_c s)\<rparr>)"

definition new_list_c :: "'a store_c \<Rightarrow> list_ref \<times> 'a store_c" where
  "new_list_c s =
     (list_count_c s,
      s\<lparr>list_heap_c := (list_heap_c s)
            (list_count_c s := \<lparr>allValues = None, firstNode_c = None, lastNode_c = None, length_c = 0\<rparr>),
        list_count_c := Suc (list_count_c s)\<rparr>)"

definition new_store_c :: "'a \<Rightarrow> 'a store_c" where
  "new_store_c d =
     \<lparr>node_heap_c = (\<lambda>_. \<lparr>list_c = None, value_c = d, previousNode = None, nextNode = None\<rparr>),
      list_heap_c = (\<lambda>_. \<lparr>allValues = None, firstNode_c = None, lastNode_c = None, length_c = 0\<rparr>),
      node_count_c = 0, list_count_c = 0\<rparr>"

text \<open>\<^verbatim>\<open>append\<close> (lines 108 to 124).\<close>

definition append_c :: "'a store_c \<Rightarrow> list_ref \<Rightarrow> 'a \<Rightarrow> error + (node_ref \<times> 'a store_c)" where
  "append_c s this item =
     (let (newNode, s1) = new_node_c s this item
      in case (if firstNode_c (list_heap_c s1 this) = None then
                 (let s2 = set_list s1 this (\<lambda>l. l\<lparr>firstNode_c := Some newNode\<rparr>)
                  in Inr (set_list s2 this (\<lambda>l. l\<lparr>lastNode_c := Some newNode\<rparr>)))
               else
                 (let s2 = set_node s1 newNode (\<lambda>n. n\<lparr>previousNode := lastNode_c (list_heap_c s1 this)\<rparr>)
                  in case lastNode_c (list_heap_c s2 this) of
                       None \<Rightarrow> Inl TypeError
                     | Some t \<Rightarrow>
                         (let s3 = set_node s2 t (\<lambda>n. n\<lparr>nextNode := Some newNode\<rparr>)
                          in Inr (set_list s3 this (\<lambda>l. l\<lparr>lastNode_c := Some newNode\<rparr>))))) of
           Inl e \<Rightarrow> Inl e
         | Inr s4 \<Rightarrow>
             (let s5 = set_list s4 this (\<lambda>l. l\<lparr>allValues := None\<rparr>);
                  s6 = set_list s5 this (\<lambda>l. l\<lparr>length_c := length_c l + 1\<rparr>)
              in Inr (newNode, s6)))"

text \<open>
  \<^verbatim>\<open>remove\<close> (lines 256 to 294): the owner is compared first, then come the
  branches head, tail, middle.
\<close>

definition remove_c :: "'a store_c \<Rightarrow> list_ref \<Rightarrow> node_ref \<Rightarrow> error + (bool \<times> 'a store_c)" where
  "remove_c s this node =
     (if list_c (node_heap_c s node) \<noteq> Some this then Inr (False, s)
      else
        case (if Some node = firstNode_c (list_heap_c s this) then
                (let s1 = set_list s this (\<lambda>l. l\<lparr>firstNode_c := nextNode (node_heap_c s node)\<rparr>)
                 in case firstNode_c (list_heap_c s1 this) of
                      Some f \<Rightarrow> Inr (set_node s1 f (\<lambda>n. n\<lparr>previousNode := None\<rparr>))
                    | None \<Rightarrow> Inr (set_list s1 this (\<lambda>l. l\<lparr>lastNode_c := None\<rparr>)))
              else if Some node = lastNode_c (list_heap_c s this) then
                (let s1 = set_list s this (\<lambda>l. l\<lparr>lastNode_c := previousNode (node_heap_c s node)\<rparr>)
                 in case lastNode_c (list_heap_c s1 this) of
                      Some t \<Rightarrow> Inr (set_node s1 t (\<lambda>n. n\<lparr>nextNode := None\<rparr>))
                    | None \<Rightarrow> Inr (set_list s1 this (\<lambda>l. l\<lparr>firstNode_c := None\<rparr>)))
              else
                (case previousNode (node_heap_c s node) of
                   None \<Rightarrow> Inl TypeError
                 | Some p \<Rightarrow>
                     (let s1 = set_node s p (\<lambda>n. n\<lparr>nextNode := nextNode (node_heap_c s node)\<rparr>)
                      in case nextNode (node_heap_c s1 node) of
                           None \<Rightarrow> Inl TypeError
                         | Some nx \<Rightarrow>
                             Inr (set_node s1 nx (\<lambda>n. n\<lparr>previousNode := previousNode (node_heap_c s1 node)\<rparr>))))) of
          Inl e \<Rightarrow> Inl e
        | Inr s2 \<Rightarrow>
            (let s3 = set_node s2 node (\<lambda>n. n\<lparr>previousNode := None\<rparr>);
                 s4 = set_node s3 node (\<lambda>n. n\<lparr>nextNode := None\<rparr>);
                 s5 = set_node s4 node (\<lambda>n. n\<lparr>list_c := None\<rparr>);
                 s6 = set_list s5 this (\<lambda>l. l\<lparr>allValues := None\<rparr>);
                 s7 = set_list s6 this (\<lambda>l. l\<lparr>length_c := length_c l - 1\<rparr>)
             in Inr (True, s7)))"

text \<open>
  \<^verbatim>\<open>insertAfterNode\<close> and \<^verbatim>\<open>insertBeforeNode\<close> (lines 314 to 385); they
  have no unguarded dereference.
\<close>

definition insertAfterNode_c ::
  "'a store_c \<Rightarrow> list_ref \<Rightarrow> node_ref \<Rightarrow> 'a \<Rightarrow> node_ref option \<times> 'a store_c" where
  "insertAfterNode_c s this node item =
     (if list_c (node_heap_c s node) \<noteq> Some this then (None, s)
      else
        (let (newNode, s1) = new_node_c s this item;
             s2 = (if lastNode_c (list_heap_c s1 this) = Some node
                   then set_list s1 this (\<lambda>l. l\<lparr>lastNode_c := Some newNode\<rparr>) else s1);
             s3 = set_node s2 newNode (\<lambda>n. n\<lparr>previousNode := Some node\<rparr>);
             s4 = (case nextNode (node_heap_c s3 node) of
                     None \<Rightarrow> s3
                   | Some nx \<Rightarrow>
                       (let s' = set_node s3 newNode (\<lambda>n. n\<lparr>nextNode := Some nx\<rparr>)
                        in set_node s' nx (\<lambda>n. n\<lparr>previousNode := Some newNode\<rparr>)));
             s5 = set_node s4 node (\<lambda>n. n\<lparr>nextNode := Some newNode\<rparr>);
             s6 = set_list s5 this (\<lambda>l. l\<lparr>allValues := None\<rparr>);
             s7 = set_list s6 this (\<lambda>l. l\<lparr>length_c := length_c l + 1\<rparr>)
         in (Some newNode, s7)))"

definition insertBeforeNode_c ::
  "'a store_c \<Rightarrow> list_ref \<Rightarrow> node_ref \<Rightarrow> 'a \<Rightarrow> node_ref option \<times> 'a store_c" where
  "insertBeforeNode_c s this node item =
     (if list_c (node_heap_c s node) \<noteq> Some this then (None, s)
      else
        (let (newNode, s1) = new_node_c s this item;
             s2 = (if firstNode_c (list_heap_c s1 this) = Some node
                   then set_list s1 this (\<lambda>l. l\<lparr>firstNode_c := Some newNode\<rparr>) else s1);
             s3 = set_node s2 newNode (\<lambda>n. n\<lparr>nextNode := Some node\<rparr>);
             s4 = (case previousNode (node_heap_c s3 node) of
                     None \<Rightarrow> s3
                   | Some pv \<Rightarrow>
                       (let s' = set_node s3 newNode (\<lambda>n. n\<lparr>previousNode := Some pv\<rparr>)
                        in set_node s' pv (\<lambda>n. n\<lparr>nextNode := Some newNode\<rparr>)));
             s5 = set_node s4 node (\<lambda>n. n\<lparr>previousNode := Some newNode\<rparr>);
             s6 = set_list s5 this (\<lambda>l. l\<lparr>allValues := None\<rparr>);
             s7 = set_list s6 this (\<lambda>l. l\<lparr>length_c := length_c l + 1\<rparr>)
         in (Some newNode, s7)))"

text \<open>The constructor (lines 58 to 62).\<close>

fun append_items_c :: "'a store_c \<Rightarrow> list_ref \<Rightarrow> 'a list \<Rightarrow> error + 'a store_c" where
  "append_items_c s this [] = Inr s"
| "append_items_c s this (item # items) =
     (case append_c s this item of
        Inl e \<Rightarrow> Inl e
      | Inr (_, s1) \<Rightarrow> append_items_c s1 this items)"

definition constructor_c :: "'a store_c \<Rightarrow> 'a list \<Rightarrow> error + (list_ref \<times> 'a store_c)" where
  "constructor_c s items =
     (let (this, s1) = new_list_c s
      in case append_items_c s1 this items of Inl e \<Rightarrow> Inl e | Inr s2 \<Rightarrow> Inr (this, s2))"

text \<open>\<^verbatim>\<open>indexOf\<close> and \<^verbatim>\<open>includes\<close> (lines 529 to 568).\<close>

partial_function (option) indexOf_skip_c ::
  "'a store_c \<Rightarrow> int \<Rightarrow> node_ref option \<Rightarrow> int \<Rightarrow> (node_ref option \<times> int) option" where
  "indexOf_skip_c s fromIndex cursor index =
     (case cursor of
        None \<Rightarrow> Some (cursor, index)
      | Some c \<Rightarrow>
          (if index < fromIndex
           then indexOf_skip_c s fromIndex (nextNode (node_heap_c s c)) (index + 1)
           else Some (cursor, index)))"

partial_function (option) indexOf_scan_c ::
  "'a store_c \<Rightarrow> 'a \<Rightarrow> node_ref option \<Rightarrow> int \<Rightarrow> int option" where
  "indexOf_scan_c s searchElement cursor index =
     (case cursor of
        None \<Rightarrow> Some (- 1)
      | Some c \<Rightarrow>
          (if value_c (node_heap_c s c) = searchElement then Some index
           else indexOf_scan_c s searchElement (nextNode (node_heap_c s c)) (index + 1)))"

definition indexOf_c :: "'a store_c \<Rightarrow> list_ref \<Rightarrow> 'a \<Rightarrow> int \<Rightarrow> int option" where
  "indexOf_c s this searchElement fromIndex =
     (case indexOf_skip_c s fromIndex (firstNode_c (list_heap_c s this)) 0 of
        None \<Rightarrow> None
      | Some (cursor, index) \<Rightarrow> indexOf_scan_c s searchElement cursor index)"

definition includes_c :: "'a store_c \<Rightarrow> list_ref \<Rightarrow> 'a \<Rightarrow> int \<Rightarrow> bool option" where
  "includes_c s this searchElement fromIndex =
     map_option (\<lambda>r. r \<noteq> - 1) (indexOf_c s this searchElement fromIndex)"

text \<open>\<^verbatim>\<open>getNodeAt\<close> (lines 701 to 731).\<close>

fun getNodeAt_fromHead_c :: "'a store_c \<Rightarrow> nat \<Rightarrow> node_ref option \<Rightarrow> node_ref option" where
  "getNodeAt_fromHead_c s 0 current = current"
| "getNodeAt_fromHead_c s (Suc k) current =
     (case current of
        None \<Rightarrow> None
      | Some c \<Rightarrow> getNodeAt_fromHead_c s k (nextNode (node_heap_c s c)))"

fun getNodeAt_fromTail_c :: "'a store_c \<Rightarrow> nat \<Rightarrow> node_ref option \<Rightarrow> node_ref option" where
  "getNodeAt_fromTail_c s 0 current = current"
| "getNodeAt_fromTail_c s (Suc k) current =
     (case current of
        None \<Rightarrow> None
      | Some c \<Rightarrow> getNodeAt_fromTail_c s k (previousNode (node_heap_c s c)))"

definition getNodeAt_c :: "'a store_c \<Rightarrow> list_ref \<Rightarrow> int \<Rightarrow> node_ref option" where
  "getNodeAt_c s this index =
     (let length = length_c (list_heap_c s this);
          actualIndex = (if index < 0 then length + index else index)
      in if actualIndex < 0 \<or> actualIndex \<ge> length then None
         else
           (let fromHead = actualIndex;
                fromTail = length - 1 - actualIndex
            in if fromHead \<le> fromTail
               then getNodeAt_fromHead_c s (nat actualIndex) (firstNode_c (list_heap_c s this))
               else getNodeAt_fromTail_c s (nat fromTail) (lastNode_c (list_heap_c s this))))"

text \<open>
  \<^verbatim>\<open>splice\<close> (lines 789 to 847); the deletion loop runs at most
  \<^verbatim>\<open>actualDeleteCount = Math.max(0, deleteCount)\<close> times.
\<close>

fun splice_delete_c ::
  "'a store_c \<Rightarrow> list_ref \<Rightarrow> list_ref \<Rightarrow> nat \<Rightarrow> node_ref option \<Rightarrow> error + (node_ref option \<times> 'a store_c)" where
  "splice_delete_c s this removed 0 nodeToRemove = Inr (nodeToRemove, s)"
| "splice_delete_c s this removed (Suc k) nodeToRemove =
     (case nodeToRemove of
        None \<Rightarrow> Inr (None, s)
      | Some node \<Rightarrow>
          (let nextNode = nextNode (node_heap_c s node)
           in case append_c s removed (value_c (node_heap_c s node)) of
                Inl e \<Rightarrow> Inl e
              | Inr (_, s1) \<Rightarrow>
                  (case remove_c s1 this node of
                     Inl e \<Rightarrow> Inl e
                   | Inr (_, s2) \<Rightarrow> splice_delete_c s2 this removed k nextNode)))"

fun splice_insert_c ::
  "'a store_c \<Rightarrow> list_ref \<Rightarrow> node_ref \<Rightarrow> node_ref option \<Rightarrow> 'a list \<Rightarrow> 'a store_c" where
  "splice_insert_c s this nodeToRemove lastInserted [] = s"
| "splice_insert_c s this nodeToRemove lastInserted (item # items) =
     (case lastInserted of
        Some li \<Rightarrow>
          (let (r, s1) = insertAfterNode_c s this li item
           in splice_insert_c s1 this nodeToRemove r items)
      | None \<Rightarrow>
          (let (r, s1) = insertBeforeNode_c s this nodeToRemove item
           in splice_insert_c s1 this nodeToRemove r items))"

definition splice_startNode_c :: "'a store_c \<Rightarrow> list_ref \<Rightarrow> start \<Rightarrow> node_ref option option" where
  "splice_startNode_c s this start =
     (case start of
        Undefined \<Rightarrow> Some None
      | Index i \<Rightarrow>
          (let length = length_c (list_heap_c s this);
               actualStart = (if i < 0 then max 0 (length + i) else min i length)
           in Some (if actualStart \<ge> length then None else getNodeAt_c s this actualStart))
      | Node n \<Rightarrow>
          (if list_c (node_heap_c s n) \<noteq> Some this then None else Some (Some n)))"

definition splice_c ::
  "'a store_c \<Rightarrow> list_ref \<Rightarrow> start \<Rightarrow> int \<Rightarrow> 'a list \<Rightarrow> error + (list_ref \<times> 'a store_c)" where
  "splice_c s this start deleteCount items =
     (case splice_startNode_c s this start of
        None \<Rightarrow> Inr (new_list_c s)
      | Some startNode \<Rightarrow>
          (let (removed, s1) = new_list_c s;
               actualDeleteCount = max 0 deleteCount
           in case splice_delete_c s1 this removed (nat actualDeleteCount) startNode of
                Inl e \<Rightarrow> Inl e
              | Inr (nodeToRemove, s2) \<Rightarrow>
                  (if length items > 0 then
                     (case (case nodeToRemove of
                              Some n \<Rightarrow> Inr (splice_insert_c s2 this n None items)
                            | None \<Rightarrow> append_items_c s2 this items) of
                        Inl e \<Rightarrow> Inl e
                      | Inr s3 \<Rightarrow> Inr (removed, s3))
                   else Inr (removed, s2))))"

section \<open>Programs: sequences of calls\<close>

text \<open>
  A client program is a sequence of calls of the mutating operations, on any of the
  lists and with any of the nodes it has got hold of.  A call that names a list or a
  node the program has not created yet cannot be written; \<open>call_ok\<close> tells the calls
  that can.
\<close>

datatype 'a call =
    New "'a list"
  | Append list_ref 'a
  | Prepend list_ref 'a
  | Push list_ref 'a
  | Unshift list_ref 'a
  | Pop list_ref
  | Shift list_ref
  | Clear list_ref
  | Remove list_ref node_ref
  | InsertAfterNode list_ref node_ref 'a
  | InsertBeforeNode list_ref node_ref 'a
  | Splice list_ref start int "'a list"

fun start_ok :: "'a store \<Rightarrow> start \<Rightarrow> bool" where
  "start_ok s (Node n) = (n < node_count s)"
| "start_ok s _ = True"

fun call_ok :: "'a store \<Rightarrow> 'a call \<Rightarrow> bool" where
  "call_ok s (New items) = True"
| "call_ok s (Append l item) = (l < list_count s)"
| "call_ok s (Prepend l item) = (l < list_count s)"
| "call_ok s (Push l item) = (l < list_count s)"
| "call_ok s (Unshift l item) = (l < list_count s)"
| "call_ok s (Pop l) = (l < list_count s)"
| "call_ok s (Shift l) = (l < list_count s)"
| "call_ok s (Clear l) = (l < list_count s)"
| "call_ok s (Remove l n) = (l < list_count s \<and> n < node_count s)"
| "call_ok s (InsertAfterNode l n item) = (l < list_count s \<and> n < node_count s)"
| "call_ok s (InsertBeforeNode l n item) = (l < list_count s \<and> n < node_count s)"
| "call_ok s (Splice l st deleteCount items) = (l < list_count s \<and> start_ok s st)"

text \<open>The store after a call (its return value is dropped); \<open>None\<close>: the call does not return.\<close>

fun exec :: "'a store \<Rightarrow> 'a call \<Rightarrow> (error + 'a store) option" where
  "exec s (New items) = Some (map_sum id snd (constructor s items))"
| "exec s (Append l item) = Some (map_sum id snd (append_dll s l item))"
| "exec s (Prepend l item) = Some (map_sum id snd (prepend s l item))"
| "exec s (Push l item) = Some (map_sum id snd (push s l item))"
| "exec s (Unshift l item) = Some (map_sum id snd (unshift s l item))"
| "exec s (Pop l) = Some (map_sum id snd (pop s l))"
| "exec s (Shift l) = Some (map_sum id snd (shift s l))"
| "exec s (Clear l) = clear s l"
| "exec s (Remove l n) = Some (map_sum id snd (remove_dll s l n))"
| "exec s (InsertAfterNode l n item) = Some (map_sum id snd (insertAfterNode s l n item))"
| "exec s (InsertBeforeNode l n item) = Some (map_sum id snd (insertBeforeNode s l n item))"
| "exec s (Splice l st deleteCount items) = Some (map_sum id snd (splice_dll s l st deleteCount items))"

text \<open>
  Running a program stops at the first exception.  A call that cannot be written is
  skipped.
\<close>

fun run :: "'a store \<Rightarrow> 'a call list \<Rightarrow> (error + 'a store) option" where
  "run s [] = Some (Inr s)"
| "run s (c # cs) =
     (if call_ok s c
      then (case exec s c of
              None \<Rightarrow> None
            | Some (Inl e) \<Rightarrow> Some (Inl e)
            | Some (Inr s1) \<Rightarrow> run s1 cs)
      else run s cs)"

text \<open>The stores a program can be in: those some sequence of calls produces.\<close>

definition reachable :: "'a store \<Rightarrow> bool" where
  "reachable s \<longleftrightarrow> (\<exists>d cs. run (new_store d) cs = Some (Inr s))"


text \<open>The store after the program \<open>cs\<close> has run from the beginning.\<close>

definition after :: "'a \<Rightarrow> 'a call list \<Rightarrow> 'a store" where
  "after d cs = (case run (new_store d) cs of Some (Inr s) \<Rightarrow> s | _ \<Rightarrow> new_store d)"

section \<open>Well-formed stores\<close>

text \<open>
  \<open>seg h p as q\<close>: the nodes \<open>as\<close> are linked to one another in this order, the first
  one has \<^verbatim>\<open>PREV\<close> \<open>p\<close> and the last one has \<^verbatim>\<open>NEXT\<close> \<open>q\<close>.
\<close>

fun seg :: "(node_ref \<Rightarrow> 'a DoubleLinkedListNode) \<Rightarrow> node_ref option \<Rightarrow> node_ref list \<Rightarrow> node_ref option \<Rightarrow> bool" where
  "seg h p [] q = True"
| "seg h p (a # as) q =
     (PREV (h a) = p \<and> NEXT (h a) = (case as of [] \<Rightarrow> q | b # _ \<Rightarrow> Some b) \<and> seg h (Some a) as q)"

text \<open>
  \<open>chain s l as\<close>: the list \<open>l\<close> consists of the nodes \<open>as\<close>, from head to tail: they are
  exactly the nodes whose owner is \<open>l\<close>, they are linked in both directions, and the
  fields of the list object agree with them.
\<close>

definition chain :: "'a store \<Rightarrow> list_ref \<Rightarrow> node_ref list \<Rightarrow> bool" where
  "chain s l as \<longleftrightarrow>
     distinct as \<and> set as = {a. LIST (node_heap s a) = Some l} \<and>
     firstNode (list_heap s l) = (case as of [] \<Rightarrow> None | a # _ \<Rightarrow> Some a) \<and>
     lastNode (list_heap s l) = (if as = [] then None else Some (last as)) \<and>
     length_dll (list_heap s l) = int (length as) \<and>
     seg (node_heap s) None as None"

text \<open>
  The invariant of the store: \<open>cf\<close> gives the chain of every list; a node without an
  owner has no links; the cells and lists that are not allocated yet own nothing.
\<close>

definition store_inv :: "'a store \<Rightarrow> (list_ref \<Rightarrow> node_ref list) \<Rightarrow> bool" where
  "store_inv s cf \<longleftrightarrow>
     (\<forall>l. chain s l (cf l)) \<and>
     (\<forall>a. LIST (node_heap s a) = None \<longrightarrow> PREV (node_heap s a) = None \<and> NEXT (node_heap s a) = None) \<and>
     (\<forall>a\<ge>node_count s. LIST (node_heap s a) = None) \<and>
     (\<forall>l\<ge>list_count s. cf l = [])"

text \<open>The values of a sequence of nodes.\<close>

definition vals :: "'a store \<Rightarrow> node_ref list \<Rightarrow> 'a list" where
  "vals s as = map (\<lambda>a. VALUE (node_heap s a)) as"

definition hd_opt :: "'b list \<Rightarrow> 'b option" where
  "hd_opt as = (case as of [] \<Rightarrow> None | a # _ \<Rightarrow> Some a)"

text \<open>
  \<open>ext s s'\<close>: the store \<open>s'\<close> comes after \<open>s\<close>; objects are only added, and the
  value of a node never changes.
\<close>

definition ext :: "'a store \<Rightarrow> 'a store \<Rightarrow> bool" where
  "ext s s' \<longleftrightarrow>
     node_count s \<le> node_count s' \<and> list_count s \<le> list_count s' \<and>
     (\<forall>a<node_count s. VALUE (node_heap s' a) = VALUE (node_heap s a))"

section \<open>The notions of the specification\<close>

text \<open>
  The node reached from \<open>start\<close> by following \<^verbatim>\<open>next\<close> (\<^verbatim>\<open>previous\<close>)
  \<open>k\<close> times; \<open>None\<close> when the chain ends before.
\<close>

primrec next_times :: "'a store \<Rightarrow> nat \<Rightarrow> node_ref option \<Rightarrow> node_ref option" where
  "next_times s 0 start = start"
| "next_times s (Suc k) start = Option.bind (next_times s k start) (\<lambda>a. NEXT (node_heap s a))"

primrec previous_times :: "'a store \<Rightarrow> nat \<Rightarrow> node_ref option \<Rightarrow> node_ref option" where
  "previous_times s 0 start = start"
| "previous_times s (Suc k) start = Option.bind (previous_times s k start) (\<lambda>a. PREV (node_heap s a))"

text \<open>
  The start index of \<^verbatim>\<open>splice\<close> clamped to \<open>[0, length]\<close>, and the number of
  values a call removes, in the words of the specification.
\<close>

definition clampedStart :: "int \<Rightarrow> int \<Rightarrow> int" where
  "clampedStart len start =
     (if start < 0 then max 0 (len + start) else if start \<ge> len then len else start)"

definition removedCount :: "int \<Rightarrow> int \<Rightarrow> int \<Rightarrow> int" where
  "removedCount len start deleteCount =
     min (max deleteCount 0) (len - clampedStart len start)"

text \<open>
  \<open>splice_position s this start p\<close>: the parameter \<^verbatim>\<open>start\<close> denotes the position
  \<open>p\<close> of the list: the clamped index, the position of the node, or the end.
\<close>

fun splice_position :: "'a store \<Rightarrow> list_ref \<Rightarrow> start \<Rightarrow> int \<Rightarrow> bool" where
  "splice_position s this (Index i) p = (p = clampedStart (getLength s this) i)"
| "splice_position s this Undefined p = (p = getLength s this)"
| "splice_position s this (Node n) p = (0 \<le> p \<and> p < getLength s this \<and> getNodeAt s this p = Some n)"

text \<open>
  \<open>owned_start s this start\<close>: the parameter \<^verbatim>\<open>start\<close> is not a node of another
  list (nor a removed node).
\<close>

fun owned_start :: "'a store \<Rightarrow> list_ref \<Rightarrow> start \<Rightarrow> bool" where
  "owned_start s this (Node n) = (LIST (node_heap s n) = Some this)"
| "owned_start s this (Index i) = True"
| "owned_start s this Undefined = True"

text \<open>
  The number of nodes reachable from a node through \<^verbatim>\<open>next\<close> (through
  \<^verbatim>\<open>previous\<close>), counted from \<open>k\<close>; \<open>None\<close> when the walk does not end.
\<close>

partial_function (option) count_NEXT :: "'a store \<Rightarrow> node_ref option \<Rightarrow> nat \<Rightarrow> nat option" where
  "count_NEXT s cursor k =
     (case cursor of None \<Rightarrow> Some k | Some c \<Rightarrow> count_NEXT s (NEXT (node_heap s c)) (k + 1))"

partial_function (option) count_PREV :: "'a store \<Rightarrow> node_ref option \<Rightarrow> nat \<Rightarrow> nat option" where
  "count_PREV s cursor k =
     (case cursor of None \<Rightarrow> Some k | Some c \<Rightarrow> count_PREV s (PREV (node_heap s c)) (k + 1))"

text \<open>
  Well-formedness of a list, as the specification states it: the length is the number of
  nodes reachable from the head through \<^verbatim>\<open>next\<close> and from the tail through
  \<^verbatim>\<open>previous\<close>; the links of neighbours are symmetric; the head has no
  predecessor and the tail no successor when the list is not empty, and there is neither
  head nor tail when it is empty.
\<close>

definition wellFormed :: "'a store \<Rightarrow> list_ref \<Rightarrow> bool" where
  "wellFormed s l \<longleftrightarrow>
     map_option int (count_NEXT s (getHead s l) 0) = Some (getLength s l) \<and>
     map_option int (count_PREV s (getTail s l) 0) = Some (getLength s l) \<and>
     (\<forall>A B. LIST (node_heap s A) = Some l \<or> LIST (node_heap s B) = Some l \<longrightarrow>
            (NEXT (node_heap s A) = Some B \<longleftrightarrow> PREV (node_heap s B) = Some A)) \<and>
     (getLength s l \<noteq> 0 \<longrightarrow>
        (\<exists>h t. getHead s l = Some h \<and> getTail s l = Some t \<and>
               PREV (node_heap s h) = None \<and> NEXT (node_heap s t) = None)) \<and>
     (getLength s l = 0 \<longrightarrow> getHead s l = None \<and> getTail s l = None)"

text \<open>
  The results of a callback called with \<^verbatim>\<open>(value, index, list)\<close> for the values
  \<open>vs\<close> in order, the index counting up from \<open>index\<close>.
\<close>

primrec called_with :: "('a \<Rightarrow> int \<Rightarrow> list_ref \<Rightarrow> 'b) \<Rightarrow> list_ref \<Rightarrow> 'a list \<Rightarrow> int \<Rightarrow> 'b list" where
  "called_with callback this [] index = []"
| "called_with callback this (v # vs) index = callback v index this # called_with callback this vs (index + 1)"

section \<open>Evaluating the model\<close>


text \<open>
  Stores to evaluate the model on: \<^verbatim>\<open>new DoubleLinkedList(10, 20, 30, 40)\<close> and
  \<^verbatim>\<open>new DoubleLinkedList(7, 8)\<close> (the lists 0 and 1, with the nodes 0 to 3 and
  4, 5); \<^verbatim>\<open>new DoubleLinkedList(1, 4)\<close>; and a program that calls every operation.
\<close>

definition two_lists :: "int store" where
  "two_lists = after 0 [New [10, 20, 30, 40], New [7, 8]]"

definition head_and_tail :: "int store" where
  "head_and_tail = after 0 [New [1, 4]]"

definition all_operations :: "int call list" where
  "all_operations =
     [New [1, 2, 3], Append 0 4, Prepend 0 0, Remove 0 2, InsertAfterNode 0 1 9,
      InsertBeforeNode 0 1 8, Pop 0, Shift 0, Push 0 5, Unshift 0 6,
      Splice 0 (Index 1) 1 [7], New [], Clear 1]"

text \<open>The same two lists in the class-based revision.\<close>

definition two_lists_c :: "int store_c" where
  "two_lists_c =
     (case constructor_c (new_store_c 0) [10, 20, 30, 40] of
        Inl e \<Rightarrow> new_store_c 0
      | Inr (l0, s0) \<Rightarrow>
          (case constructor_c s0 [7, 8] of Inl e \<Rightarrow> s0 | Inr (l1, s1) \<Rightarrow> s1))"

lemmas model_defs =
  after_def new_store_def new_list_def new_node_def constructor_def append_dll_def prepend_def
  remove_dll_def remove_unlink_def insertAfterNode_def insertBeforeNode_def
  write_LIST_def write_PREV_def write_NEXT_def write_firstNode_def write_lastNode_def write_length_def
  toArray_def array_set_def indexOf_def includes_dll_def getNodeAt_def get_def splice_dll_def splice_startNode_def
  push_def pop_def shift_def unshift_def getLength_def isEmpty_def getHead_def getTail_def
  toArray_loop.simps indexOf_skip.simps indexOf_scan.simps clear.simps count_NEXT.simps count_PREV.simps
  getNodeAt_fromHead.simps next_times.simps previous_times.simps clampedStart_def removedCount_def
  iterator_def iterator_next_def forEach_def map_dll_def find_dll_def
  forEach_loop.simps map_loop.simps find_loop.simps
  eval_nat_numeral Let_def

lemmas model_c_defs =
  set_node_def set_list_def new_node_c_def new_list_c_def new_store_c_def append_c_def remove_c_def
  insertAfterNode_c_def insertBeforeNode_c_def constructor_c_def indexOf_c_def includes_c_def
  getNodeAt_c_def splice_startNode_c_def splice_c_def
  indexOf_skip_c.simps indexOf_scan_c.simps eval_nat_numeral Let_def

section \<open>Lemmas on well-formed stores\<close>

lemma seg_cong: "(\<And>a. a \<in> set as \<Longrightarrow> h' a = h a) \<Longrightarrow> seg h' p as q = seg h p as q"
  by (induction as arbitrary: p) auto

lemma seg_upd [simp]: "a \<notin> set as \<Longrightarrow> seg (h(a := x)) p as q = seg h p as q"
  by (rule seg_cong) auto

lemma seg_append:
  "seg h p (xs @ y # ys) q =
     (seg h p xs (Some y) \<and> seg h (if xs = [] then p else Some (last xs)) (y # ys) q)"
  by (induction xs arbitrary: p) (auto split: list.splits)

lemma seg_snoc:
  "seg h p (xs @ [y]) q =
     (seg h p xs (Some y) \<and> PREV (h y) = (if xs = [] then p else Some (last xs)) \<and> NEXT (h y) = q)"
  by (simp add: seg_append)

lemma chain_frame:
  assumes "chain s l as" and "list_heap s' l = list_heap s l"
    and "\<And>a. LIST (node_heap s a) = Some l \<Longrightarrow> node_heap s' a = node_heap s a"
    and "\<And>a. LIST (node_heap s' a) = Some l \<Longrightarrow> LIST (node_heap s a) = Some l"
  shows "chain s' l as"
proof -
  have eq: "\<And>a. a \<in> set as \<Longrightarrow> node_heap s' a = node_heap s a"
    using assms(1,3) by (auto simp: chain_def)
  have "seg (node_heap s') None as None = seg (node_heap s) None as None"
    by (rule seg_cong) (simp add: eq)
  moreover have "{a. LIST (node_heap s' a) = Some l} = {a. LIST (node_heap s a) = Some l}"
    using assms(3,4) by auto
  ultimately show ?thesis using assms(1,2) by (simp add: chain_def)
qed

lemma chain_other:
  assumes "chain s l' as" and "l' \<noteq> l" and "list_heap s' l' = list_heap s l'"
    and "\<And>a. node_heap s' a = node_heap s a \<or>
           ((LIST (node_heap s a) = None \<or> LIST (node_heap s a) = Some l) \<and>
            (LIST (node_heap s' a) = None \<or> LIST (node_heap s' a) = Some l))"
  shows "chain s' l' as"
proof (rule chain_frame[OF assms(1) assms(3)])
  fix a assume "LIST (node_heap s a) = Some l'"
  then show "node_heap s' a = node_heap s a" using assms(2) assms(4)[of a] by auto
next
  fix a assume "LIST (node_heap s' a) = Some l'"
  then show "LIST (node_heap s a) = Some l'" using assms(2) assms(4)[of a] by auto
qed

lemma chainI:
  "distinct as \<Longrightarrow> {a. LIST (node_heap s a) = Some l} = set as \<Longrightarrow>
   firstNode (list_heap s l) = (case as of [] \<Rightarrow> None | a # _ \<Rightarrow> Some a) \<Longrightarrow>
   lastNode (list_heap s l) = (if as = [] then None else Some (last as)) \<Longrightarrow>
   length_dll (list_heap s l) = int (length as) \<Longrightarrow>
   seg (node_heap s) None as None \<Longrightarrow> chain s l as"
  by (simp add: chain_def)

lemma chainD:
  assumes "chain s l as"
  shows "distinct as" and "LIST (node_heap s a) = Some l \<longleftrightarrow> a \<in> set as"
    and "firstNode (list_heap s l) = (case as of [] \<Rightarrow> None | a # _ \<Rightarrow> Some a)"
    and "lastNode (list_heap s l) = (if as = [] then None else Some (last as))"
    and "length_dll (list_heap s l) = int (length as)"
    and "seg (node_heap s) None as None"
  using assms by (auto simp: chain_def)

lemma chain_Nil_iff: "chain s l as \<Longrightarrow> (as = []) = (length_dll (list_heap s l) = 0)"
  by (auto simp: chain_def)


lemma append_inv:
  assumes inv: "store_inv s cf" and l: "l < list_count s"
  shows "\<exists>s'. append_dll s l v = Inr (node_count s, s') \<and>
           store_inv s' (cf(l := cf l @ [node_count s])) \<and>
           node_count s' = Suc (node_count s) \<and> list_count s' = list_count s \<and>
           (\<forall>a. VALUE (node_heap s' a) = (if a = node_count s then v else VALUE (node_heap s a)))"
proof -
  let ?n = "node_count s"
  have ch: "\<And>l. chain s l (cf l)" using inv by (simp add: store_inv_def)
  have fresh: "LIST (node_heap s ?n) = None" using inv by (simp add: store_inv_def)
  have nin: "\<And>l. ?n \<notin> set (cf l)" using ch fresh by (auto simp: chain_def)
  show ?thesis
  proof (cases "cf l = []")
    case True
    have "\<exists>s'. append_dll s l v = Inr (?n, s') \<and>
       node_heap s' = (node_heap s)(?n := \<lparr>LIST = Some l, VALUE = v, PREV = None, NEXT = None\<rparr>) \<and>
       list_heap s' = (list_heap s)(l := (list_heap s l)\<lparr>firstNode := Some ?n, lastNode := Some ?n, length_dll := 1\<rparr>) \<and>
       node_count s' = Suc ?n \<and> list_count s' = list_count s"
      using ch[of l] True
      by (simp add: append_dll_def new_node_def write_firstNode_def write_lastNode_def write_length_def chain_def)
    then obtain s' where r: "append_dll s l v = Inr (?n, s')"
      and h: "node_heap s' = (node_heap s)(?n := \<lparr>LIST = Some l, VALUE = v, PREV = None, NEXT = None\<rparr>)"
      and lh: "list_heap s' = (list_heap s)(l := (list_heap s l)\<lparr>firstNode := Some ?n, lastNode := Some ?n, length_dll := 1\<rparr>)"
      and cnt: "node_count s' = Suc ?n" "list_count s' = list_count s" by blast
    have c1: "chain s' l [?n]"
      using ch[of l] True by (auto simp: chain_def h lh)
    have c2: "\<And>l'. l' \<noteq> l \<Longrightarrow> chain s' l' (cf l')"
      by (rule chain_other[OF ch, of _ l]) (use fresh in \<open>auto simp: h lh\<close>)
    have "store_inv s' (cf(l := cf l @ [?n]))"
      using inv c1 c2 True l by (auto simp: store_inv_def h cnt)
    then show ?thesis using r by (auto simp: h cnt)
  next
    case False
    then obtain xs t where xs: "cf l = xs @ [t]" by (metis rev_exhaust)
    have tn: "t \<noteq> ?n" using nin[of l] xs by auto
    have "\<exists>s'. append_dll s l v = Inr (?n, s') \<and>
       node_heap s' = (node_heap s)(?n := \<lparr>LIST = Some l, VALUE = v, PREV = Some t, NEXT = None\<rparr>,
                     t := (node_heap s t)\<lparr>NEXT := Some ?n\<rparr>) \<and>
       list_heap s' = (list_heap s)(l := (list_heap s l)\<lparr>lastNode := Some ?n, length_dll := length_dll (list_heap s l) + 1\<rparr>) \<and>
       node_count s' = Suc ?n \<and> list_count s' = list_count s"
      using ch[of l] xs tn
      by (simp add: append_dll_def new_node_def write_NEXT_def write_lastNode_def write_length_def chain_def)
    then obtain s' where r: "append_dll s l v = Inr (?n, s')"
      and h: "node_heap s' = (node_heap s)(?n := \<lparr>LIST = Some l, VALUE = v, PREV = Some t, NEXT = None\<rparr>,
                     t := (node_heap s t)\<lparr>NEXT := Some ?n\<rparr>)"
      and lh: "list_heap s' = (list_heap s)(l := (list_heap s l)\<lparr>lastNode := Some ?n, length_dll := length_dll (list_heap s l) + 1\<rparr>)"
      and cnt: "node_count s' = Suc ?n" "list_count s' = list_count s" by blast
    have d: "distinct (xs @ [t])" "?n \<notin> set (xs @ [t])" "t \<notin> set xs"
      using ch[of l] xs nin[of l] by (auto simp: chain_def)
    have sg: "seg (node_heap s) None xs (Some t)" "PREV (node_heap s t) = (if xs = [] then None else Some (last xs))"
      using ch[of l] xs by (auto simp: chain_def seg_snoc)
    have sg': "seg (node_heap s') None (xs @ [t, ?n]) None"
      using d sg tn by (simp add: seg_append h)
    note cl = chainD[OF ch[of l], unfolded xs]
    have own: "{a. LIST (node_heap s' a) = Some l} = set (xs @ [t, ?n])"
      using cl(2) by (auto simp: h)
    have c1: "chain s' l (xs @ [t, ?n])"
    proof (rule chainI)
      show "distinct (xs @ [t, ?n])" using d by auto
      show "{a. LIST (node_heap s' a) = Some l} = set (xs @ [t, ?n])" by (rule own)
      show "firstNode (list_heap s' l) = (case xs @ [t, ?n] of [] \<Rightarrow> None | a # _ \<Rightarrow> Some a)"
        using cl(3) by (cases xs) (simp_all add: lh)
      show "lastNode (list_heap s' l) = (if xs @ [t, ?n] = [] then None else Some (last (xs @ [t, ?n])))"
        by (simp add: lh)
      show "length_dll (list_heap s' l) = int (length (xs @ [t, ?n]))"
        using cl(5) by (simp add: lh)
      show "seg (node_heap s') None (xs @ [t, ?n]) None" by (rule sg')
    qed
    have c2: "\<And>l'. l' \<noteq> l \<Longrightarrow> chain s' l' (cf l')"
      by (rule chain_other[OF ch, of _ l]) (use fresh cl(2)[of t] in \<open>auto simp: h lh\<close>)
    have "store_inv s' (cf(l := cf l @ [?n]))"
      using inv c1 c2 xs l tn cl(2)[of t] by (auto simp: store_inv_def h cnt)
    then show ?thesis using r tn by (auto simp: h cnt)
  qed
qed

lemma store_invI:
  "(\<And>l. chain s l (cf l)) \<Longrightarrow>
   (\<And>a. LIST (node_heap s a) = None \<Longrightarrow> PREV (node_heap s a) = None \<and> NEXT (node_heap s a) = None) \<Longrightarrow>
   (\<And>a. a \<ge> node_count s \<Longrightarrow> LIST (node_heap s a) = None) \<Longrightarrow>
   (\<And>l. l \<ge> list_count s \<Longrightarrow> cf l = []) \<Longrightarrow> store_inv s cf"
  by (simp add: store_inv_def)

lemma store_invD:
  assumes "store_inv s cf"
  shows "chain s l (cf l)"
    and "LIST (node_heap s a) = None \<Longrightarrow> PREV (node_heap s a) = None \<and> NEXT (node_heap s a) = None"
    and "a \<ge> node_count s \<Longrightarrow> LIST (node_heap s a) = None"
    and "l \<ge> list_count s \<Longrightarrow> cf l = []"
  using assms by (auto simp: store_inv_def)

lemma remove_foreign:
  assumes inv: "store_inv s cf" and a: "LIST (node_heap s a) \<noteq> Some l"
  shows "remove_dll s l a = Inr (False, s)"
proof -
  note cl = chainD[OF store_invD(1)[OF inv, of l]]
  have "a \<notin> set (cf l)" using cl(2)[of a] a by simp
  then have "Some a \<noteq> lastNode (list_heap s l)" "Some a \<noteq> firstNode (list_heap s l)"
    using cl(3,4) by (auto split: list.splits)
  then show ?thesis using a by (simp add: remove_dll_def remove_unlink_def)
qed

lemma remove_inv:
  assumes inv: "store_inv s cf" and a: "LIST (node_heap s a) = Some l"
  shows "\<exists>s'. remove_dll s l a = Inr (True, s') \<and>
           store_inv s' (cf(l := remove1 a (cf l))) \<and>
           node_count s' = node_count s \<and> list_count s' = list_count s \<and>
           (\<forall>x. VALUE (node_heap s' x) = VALUE (node_heap s x)) \<and>
           LIST (node_heap s' a) = None"
proof -
  note ch = store_invD(1)[OF inv]
  note cl = chainD[OF ch[of l]]
  have ain: "a \<in> set (cf l)" using cl(2)[of a] a by simp
  then obtain xs ys where as: "cf l = xs @ a # ys" by (meson split_list)
  have d: "distinct (xs @ a # ys)" using cl(1) as by simp
  then have rm: "remove1 a (cf l) = xs @ ys" by (simp add: as remove1_append)
  have sgs: "seg (node_heap s) None (xs @ a # ys) None" using cl(6) as by simp
  have own: "\<And>x. LIST (node_heap s x) = Some l \<longleftrightarrow> x \<in> set (xs @ a # ys)"
    using cl(2) as by simp
  have first: "firstNode (list_heap s l) = (case xs of [] \<Rightarrow> Some a | x # _ \<Rightarrow> Some x)"
    using cl(3) as by (simp split: list.splits)
  have last: "lastNode (list_heap s l) = (if ys = [] then Some a else Some (last ys))"
    using cl(4) as by simp
  have len: "length_dll (list_heap s l) = int (length xs) + 1 + int (length ys)"
    using cl(5) as by simp
  have ex: "\<exists>s'. remove_dll s l a = Inr (True, s') \<and>
       node_heap s' = (\<lambda>x. if x = a then (node_heap s a)\<lparr>LIST := None, PREV := None, NEXT := None\<rparr>
                            else if xs \<noteq> [] \<and> x = last xs then (node_heap s x)\<lparr>NEXT := (case ys of [] \<Rightarrow> None | y # _ \<Rightarrow> Some y)\<rparr>
                            else if ys \<noteq> [] \<and> x = hd ys then (node_heap s x)\<lparr>PREV := (if xs = [] then None else Some (last xs))\<rparr>
                            else node_heap s x) \<and>
       (\<forall>l'. l' \<noteq> l \<longrightarrow> list_heap s' l' = list_heap s l') \<and>
       firstNode (list_heap s' l) = (case xs @ ys of [] \<Rightarrow> None | x # _ \<Rightarrow> Some x) \<and>
       lastNode (list_heap s' l) = (if xs @ ys = [] then None else Some (last (xs @ ys))) \<and>
       length_dll (list_heap s' l) = int (length (xs @ ys)) \<and>
       node_count s' = node_count s \<and> list_count s' = list_count s"
  proof -
    have pa: "PREV (node_heap s a) = (if xs = [] then None else Some (last xs))"
      and na: "NEXT (node_heap s a) = (case ys of [] \<Rightarrow> None | y # _ \<Rightarrow> Some y)"
      using sgs by (simp_all add: seg_append)
    have fa: "xs \<noteq> [] \<Longrightarrow> firstNode (list_heap s l) \<noteq> Some a"
      using first d by (cases xs) auto
    have la: "ys \<noteq> [] \<Longrightarrow> lastNode (list_heap s l) \<noteq> Some a"
      using last d by auto
    have lxa: "xs \<noteq> [] \<Longrightarrow> last xs \<noteq> a" and hya: "ys \<noteq> [] \<Longrightarrow> hd ys \<noteq> a"
      and lxy: "xs \<noteq> [] \<Longrightarrow> ys \<noteq> [] \<Longrightarrow> last xs \<noteq> hd ys"
      using d by (auto simp: neq_Nil_conv) (metis last_in_set list.distinct(1) last_ConsR last_ConsL)+
    consider (single) "xs = []" "ys = []" | (tail) "xs \<noteq> []" "ys = []"
      | (head) "xs = []" "ys \<noteq> []" | (middle) "xs \<noteq> []" "ys \<noteq> []" by blast
    then show ?thesis
    proof cases
      case single
      then show ?thesis using pa na first last len
        by (simp add: remove_dll_def remove_unlink_def write_lastNode_def write_firstNode_def
            write_PREV_def write_NEXT_def write_LIST_def write_length_def fun_eq_iff)
    next
      case tail
      then show ?thesis using pa na fa first last len lxa
        by (simp add: remove_dll_def remove_unlink_def write_lastNode_def write_firstNode_def
            write_PREV_def write_NEXT_def write_LIST_def write_length_def fun_eq_iff
            split: list.splits)
    next
      case head
      then obtain n ys' where "ys = n # ys'" by (cases ys) auto
      then show ?thesis using head pa na la first last len hya
        by (simp add: remove_dll_def remove_unlink_def write_lastNode_def write_firstNode_def
            write_PREV_def write_NEXT_def write_LIST_def write_length_def fun_eq_iff)
    next
      case middle
      then obtain n ys' where "ys = n # ys'" by (cases ys) auto
      then show ?thesis using middle pa na fa la first last len lxa hya lxy a
        by (simp add: remove_dll_def remove_unlink_def write_lastNode_def write_firstNode_def
            write_PREV_def write_NEXT_def write_LIST_def write_length_def fun_eq_iff
            split: list.splits)
    qed
  qed
  then obtain s' where r: "remove_dll s l a = Inr (True, s')"
    and h: "node_heap s' = (\<lambda>x. if x = a then (node_heap s a)\<lparr>LIST := None, PREV := None, NEXT := None\<rparr>
                            else if xs \<noteq> [] \<and> x = last xs then (node_heap s x)\<lparr>NEXT := (case ys of [] \<Rightarrow> None | y # _ \<Rightarrow> Some y)\<rparr>
                            else if ys \<noteq> [] \<and> x = hd ys then (node_heap s x)\<lparr>PREV := (if xs = [] then None else Some (last xs))\<rparr>
                            else node_heap s x)"
    and lh: "\<And>l'. l' \<noteq> l \<Longrightarrow> list_heap s' l' = list_heap s l'"
    and fl: "firstNode (list_heap s' l) = (case xs @ ys of [] \<Rightarrow> None | x # _ \<Rightarrow> Some x)"
       "lastNode (list_heap s' l) = (if xs @ ys = [] then None else Some (last (xs @ ys)))"
       "length_dll (list_heap s' l) = int (length (xs @ ys))"
    and cnt: "node_count s' = node_count s" "list_count s' = list_count s"
    by blast
  have lx: "xs \<noteq> [] \<Longrightarrow> LIST (node_heap s (last xs)) = Some l"
    and ly: "ys \<noteq> [] \<Longrightarrow> LIST (node_heap s (hd ys)) = Some l"
    using own by auto
  have sg': "seg (node_heap s') None (xs @ ys) None"
  proof (cases xs rule: rev_cases)
    case Nil
    show ?thesis
    proof (cases ys)
      case Nil then show ?thesis using \<open>xs = []\<close> by simp
    next
      case (Cons n ys')
      have "seg (node_heap s') (Some n) ys' None = seg (node_heap s) (Some n) ys' None"
        by (rule seg_cong) (use d Cons Nil in \<open>auto simp: h\<close>)
      then show ?thesis using Nil Cons sgs d by (auto simp: h)
    qed
  next
    case (snoc xs' p)
    have 1: "seg (node_heap s') None xs' (Some p) = seg (node_heap s) None xs' (Some p)"
      by (rule seg_cong) (use d snoc in \<open>auto simp: h\<close>)
    show ?thesis
    proof (cases ys)
      case Nil then show ?thesis using snoc sgs d 1 by (auto simp: h seg_append)
    next
      case (Cons n ys')
      have "seg (node_heap s') (Some n) ys' None = seg (node_heap s) (Some n) ys' None"
        by (rule seg_cong) (use d Cons snoc in \<open>auto simp: h\<close>)
      then show ?thesis using snoc Cons sgs d 1 by (auto simp: h seg_append)
    qed
  qed
  have c1: "chain s' l (xs @ ys)"
  proof (rule chainI)
    show "distinct (xs @ ys)" using d by auto
    show "{x. LIST (node_heap s' x) = Some l} = set (xs @ ys)"
      using own d by (auto simp: h)
  qed (use fl sg' in auto)
  have c2: "\<And>l'. l' \<noteq> l \<Longrightarrow> chain s' l' (cf l')"
    by (rule chain_other[OF ch, of _ l]) (use lx ly a in \<open>auto simp: h lh\<close>)
  have "store_inv s' (cf(l := remove1 a (cf l)))"
  proof (rule store_invI)
    fix l' show "chain s' l' ((cf(l := remove1 a (cf l))) l')"
      using c1 c2 rm by auto
  next
    fix x assume "LIST (node_heap s' x) = None"
    then show "PREV (node_heap s' x) = None \<and> NEXT (node_heap s' x) = None"
      using store_invD(2)[OF inv, of x] lx ly by (auto simp: h split: if_splits)
  next
    fix x assume "x \<ge> node_count s'"
    then show "LIST (node_heap s' x) = None"
      using store_invD(3)[OF inv, of x] lx ly by (auto simp: h cnt)
  next
    fix l' assume "l' \<ge> list_count s'"
    then show "(cf(l := remove1 a (cf l))) l' = []"
      using store_invD(4)[OF inv, of l'] by (auto simp: cnt)
  qed
  then show ?thesis using r cnt by (auto simp: h)
qed



lemma prepend_inv:
  assumes inv: "store_inv s cf" and l: "l < list_count s"
  shows "\<exists>s'. prepend s l v = Inr (node_count s, s') \<and>
           store_inv s' (cf(l := node_count s # cf l)) \<and>
           node_count s' = Suc (node_count s) \<and> list_count s' = list_count s \<and>
           (\<forall>a. VALUE (node_heap s' a) = (if a = node_count s then v else VALUE (node_heap s a)))"
proof -
  let ?n = "node_count s"
  note ch = store_invD(1)[OF inv]
  note cl = chainD[OF ch[of l]]
  have fresh: "LIST (node_heap s ?n) = None" using store_invD(3)[OF inv] by simp
  have nin: "?n \<notin> set (cf l)" using cl(2)[of ?n] fresh by simp
  have "\<exists>s'. prepend s l v = Inr (?n, s') \<and> store_inv s' (cf(l := ?n # cf l)) \<and>
          node_count s' = Suc ?n \<and> list_count s' = list_count s \<and>
          (\<forall>a. VALUE (node_heap s' a) = (if a = ?n then v else VALUE (node_heap s a)))"
  proof (cases "cf l")
    case Nil
    have "\<exists>s'. prepend s l v = Inr (?n, s') \<and>
       node_heap s' = (\<lambda>x. if x = ?n then \<lparr>LIST = Some l, VALUE = v, PREV = None, NEXT = None\<rparr>
                            else node_heap s x) \<and>
       (\<forall>l'. l' \<noteq> l \<longrightarrow> list_heap s' l' = list_heap s l') \<and>
       firstNode (list_heap s' l) = Some ?n \<and> lastNode (list_heap s' l) = Some ?n \<and>
       length_dll (list_heap s' l) = 1 \<and>
       node_count s' = Suc ?n \<and> list_count s' = list_count s"
      using Nil cl(3,4,5)
      by (simp add: prepend_def new_node_def write_firstNode_def write_lastNode_def write_length_def fun_eq_iff)
    then obtain s' where r: "prepend s l v = Inr (?n, s')"
      and h: "node_heap s' = (\<lambda>x. if x = ?n then \<lparr>LIST = Some l, VALUE = v, PREV = None, NEXT = None\<rparr>
                            else node_heap s x)"
      and lh: "\<And>l'. l' \<noteq> l \<Longrightarrow> list_heap s' l' = list_heap s l'"
      and fl: "firstNode (list_heap s' l) = Some ?n" "lastNode (list_heap s' l) = Some ?n"
         "length_dll (list_heap s' l) = 1"
      and cnt: "node_count s' = Suc ?n" "list_count s' = list_count s"
      by blast
    have c1: "chain s' l [?n]"
    proof (rule chainI)
      show "{x. LIST (node_heap s' x) = Some l} = set [?n]"
        using cl(2) Nil by (auto simp: h)
    qed (simp_all add: fl h)
    have c2: "\<And>l'. l' \<noteq> l \<Longrightarrow> chain s' l' (cf l')"
      by (rule chain_other[OF ch, of _ l]) (use fresh in \<open>simp_all add: h lh\<close>)
    have "store_inv s' (cf(l := ?n # cf l))"
    proof (rule store_invI)
      fix l' show "chain s' l' ((cf(l := ?n # cf l)) l')"
        using c1 c2 Nil by simp
    next
      fix x assume "LIST (node_heap s' x) = None"
      then show "PREV (node_heap s' x) = None \<and> NEXT (node_heap s' x) = None"
        using store_invD(2)[OF inv, of x] by (simp add: h split: if_splits)
    next
      fix x assume "x \<ge> node_count s'"
      then show "LIST (node_heap s' x) = None"
        using store_invD(3)[OF inv, of x] by (simp add: h cnt)
    next
      fix l' assume "l' \<ge> list_count s'"
      then show "(cf(l := ?n # cf l)) l' = []"
        using store_invD(4)[OF inv, of l'] l by (simp add: cnt)
    qed
    then show ?thesis using r cnt by (auto simp: h)
  next
    case (Cons y ys)
    have ny: "?n \<noteq> y" using nin Cons by simp
    have y: "LIST (node_heap s y) = Some l" using cl(2)[of y] Cons by simp
    have "\<exists>s'. prepend s l v = Inr (?n, s') \<and>
       node_heap s' = (\<lambda>x. if x = ?n then \<lparr>LIST = Some l, VALUE = v, PREV = None, NEXT = Some y\<rparr>
                            else if x = y then (node_heap s x)\<lparr>PREV := Some ?n\<rparr>
                            else node_heap s x) \<and>
       (\<forall>l'. l' \<noteq> l \<longrightarrow> list_heap s' l' = list_heap s l') \<and>
       firstNode (list_heap s' l) = Some ?n \<and> lastNode (list_heap s' l) = lastNode (list_heap s l) \<and>
       length_dll (list_heap s' l) = length_dll (list_heap s l) + 1 \<and>
       node_count s' = Suc ?n \<and> list_count s' = list_count s"
      using Cons cl(3,5) ny
      by (simp add: prepend_def new_node_def write_firstNode_def write_PREV_def write_length_def fun_eq_iff)
    then obtain s' where r: "prepend s l v = Inr (?n, s')"
      and h: "node_heap s' = (\<lambda>x. if x = ?n then \<lparr>LIST = Some l, VALUE = v, PREV = None, NEXT = Some y\<rparr>
                            else if x = y then (node_heap s x)\<lparr>PREV := Some ?n\<rparr>
                            else node_heap s x)"
      and lh: "\<And>l'. l' \<noteq> l \<Longrightarrow> list_heap s' l' = list_heap s l'"
      and fl: "firstNode (list_heap s' l) = Some ?n" "lastNode (list_heap s' l) = lastNode (list_heap s l)"
         "length_dll (list_heap s' l) = length_dll (list_heap s l) + 1"
      and cnt: "node_count s' = Suc ?n" "list_count s' = list_count s"
      by blast
    have 1: "seg (node_heap s') (Some y) ys None = seg (node_heap s) (Some y) ys None"
      by (rule seg_cong) (use cl(1) nin Cons in \<open>auto simp: h\<close>)
    have sg': "seg (node_heap s') None (?n # y # ys) None"
      using cl(6) 1 Cons ny by (simp add: h)
    have c1: "chain s' l (?n # y # ys)"
    proof (rule chainI)
      show "distinct (?n # y # ys)" using cl(1) nin Cons by simp
      show "{x. LIST (node_heap s' x) = Some l} = set (?n # y # ys)"
        using cl(2) Cons by (auto simp: h)
      show "lastNode (list_heap s' l) = (if ?n # y # ys = [] then None else Some (last (?n # y # ys)))"
        using cl(4) Cons by (simp add: fl)
      show "length_dll (list_heap s' l) = int (length (?n # y # ys))"
        using cl(5) Cons by (simp add: fl)
      show "seg (node_heap s') None (?n # y # ys) None" by (rule sg')
    qed (simp_all add: fl)
    have c2: "\<And>l'. l' \<noteq> l \<Longrightarrow> chain s' l' (cf l')"
      by (rule chain_other[OF ch, of _ l]) (use fresh y in \<open>simp_all add: h lh\<close>)
    have "store_inv s' (cf(l := ?n # cf l))"
    proof (rule store_invI)
      fix l' show "chain s' l' ((cf(l := ?n # cf l)) l')"
        using c1 c2 Cons by simp
    next
      fix x assume "LIST (node_heap s' x) = None"
      then show "PREV (node_heap s' x) = None \<and> NEXT (node_heap s' x) = None"
        using store_invD(2)[OF inv, of x] y by (simp add: h split: if_splits)
    next
      fix x assume "x \<ge> node_count s'"
      then show "LIST (node_heap s' x) = None"
        using store_invD(3)[OF inv, of x] y by (auto simp: h cnt)
    next
      fix l' assume "l' \<ge> list_count s'"
      then show "(cf(l := ?n # cf l)) l' = []"
        using store_invD(4)[OF inv, of l'] l by (simp add: cnt)
    qed
    then show ?thesis using r cnt by (auto simp: h)
  qed
  then show ?thesis .
qed

lemma insertAfterNode_inv:
  assumes inv: "store_inv s cf" and as: "cf l = xs @ a # ys"
  shows "\<exists>s'. insertAfterNode s l a v = Inr (Some (node_count s), s') \<and>
           store_inv s' (cf(l := xs @ a # node_count s # ys)) \<and>
           node_count s' = Suc (node_count s) \<and> list_count s' = list_count s \<and>
           (\<forall>x. VALUE (node_heap s' x) = (if x = node_count s then v else VALUE (node_heap s x)))"
proof -
  let ?n = "node_count s"
  note ch = store_invD(1)[OF inv]
  note cl = chainD[OF ch[of l], unfolded as]
  have l: "l < list_count s" using store_invD(4)[OF inv, of l] as by (cases "l < list_count s") auto
  have a: "LIST (node_heap s a) = Some l" using cl(2)[of a] by simp
  have fresh: "LIST (node_heap s ?n) = None" using store_invD(3)[OF inv] by simp
  have nin: "?n \<notin> set (xs @ a # ys)" using cl(2)[of ?n] fresh by simp
  have d: "distinct (xs @ a # ys)" using cl(1) .
  show ?thesis
  proof (cases ys)
    case Nil
    then have last: "lastNode (list_heap s l) = Some a" using cl(4) by simp
    have "insertAfterNode s l a v =
            (case append_dll s l v of Inl e \<Rightarrow> Inl e | Inr (n, s') \<Rightarrow> Inr (Some n, s'))"
      using a last by (simp add: insertAfterNode_def)
    then show ?thesis using append_inv[OF inv l, of v] as Nil by auto
  next
    case (Cons b ys')
    have ab: "a \<noteq> b" "?n \<noteq> a" "?n \<noteq> b" using d nin Cons by auto
    have last: "lastNode (list_heap s l) \<noteq> Some a" using cl(4) d Cons by auto
    have na: "NEXT (node_heap s a) = Some b" using cl(6) Cons by (simp add: seg_append)
    have ex: "\<exists>s'. insertAfterNode s l a v = Inr (Some ?n, s') \<and>
       node_heap s' = (\<lambda>x. if x = ?n then \<lparr>LIST = Some l, VALUE = v, PREV = Some a, NEXT = Some b\<rparr>
                            else if x = a then (node_heap s x)\<lparr>NEXT := Some ?n\<rparr>
                            else if x = b then (node_heap s x)\<lparr>PREV := Some ?n\<rparr>
                            else node_heap s x) \<and>
       (\<forall>l'. l' \<noteq> l \<longrightarrow> list_heap s' l' = list_heap s l') \<and>
       firstNode (list_heap s' l) = firstNode (list_heap s l) \<and>
       lastNode (list_heap s' l) = lastNode (list_heap s l) \<and>
       length_dll (list_heap s' l) = length_dll (list_heap s l) + 1 \<and>
       node_count s' = Suc ?n \<and> list_count s' = list_count s"
      using a last na ab
      by (simp add: insertAfterNode_def new_node_def write_NEXT_def write_PREV_def write_length_def fun_eq_iff)
    then obtain s' where r: "insertAfterNode s l a v = Inr (Some ?n, s')"
      and h: "node_heap s' = (\<lambda>x. if x = ?n then \<lparr>LIST = Some l, VALUE = v, PREV = Some a, NEXT = Some b\<rparr>
                            else if x = a then (node_heap s x)\<lparr>NEXT := Some ?n\<rparr>
                            else if x = b then (node_heap s x)\<lparr>PREV := Some ?n\<rparr>
                            else node_heap s x)"
      and lh: "\<And>l'. l' \<noteq> l \<Longrightarrow> list_heap s' l' = list_heap s l'"
      and fl: "firstNode (list_heap s' l) = firstNode (list_heap s l)"
         "lastNode (list_heap s' l) = lastNode (list_heap s l)"
         "length_dll (list_heap s' l) = length_dll (list_heap s l) + 1"
      and cnt: "node_count s' = Suc ?n" "list_count s' = list_count s"
      by blast
    have b: "LIST (node_heap s b) = Some l" using cl(2)[of b] Cons by simp
    have 1: "seg (node_heap s') None xs (Some a) = seg (node_heap s) None xs (Some a)"
      by (rule seg_cong) (use d nin Cons in \<open>auto simp: h\<close>)
    have 2: "seg (node_heap s') (Some b) ys' None = seg (node_heap s) (Some b) ys' None"
      by (rule seg_cong) (use d nin Cons in \<open>auto simp: h\<close>)
    have sg': "seg (node_heap s') None (xs @ a # ?n # ys) None"
      using cl(6) 1 2 Cons ab by (auto simp: seg_append h)
    have c1: "chain s' l (xs @ a # ?n # ys)"
    proof (rule chainI)
      show "distinct (xs @ a # ?n # ys)" using d nin by auto
      show "{x. LIST (node_heap s' x) = Some l} = set (xs @ a # ?n # ys)"
        using cl(2) by (auto simp: h)
      show "firstNode (list_heap s' l) = (case xs @ a # ?n # ys of [] \<Rightarrow> None | a # _ \<Rightarrow> Some a)"
        using cl(3) by (cases xs) (simp_all add: fl)
      show "lastNode (list_heap s' l) = (if xs @ a # ?n # ys = [] then None else Some (last (xs @ a # ?n # ys)))"
        using cl(4) Cons by (simp add: fl)
      show "length_dll (list_heap s' l) = int (length (xs @ a # ?n # ys))"
        using cl(5) by (simp add: fl)
    qed (rule sg')
    have c2: "\<And>l'. l' \<noteq> l \<Longrightarrow> chain s' l' (cf l')"
      by (rule chain_other[OF ch, of _ l]) (use a b fresh in \<open>auto simp: h lh\<close>)
    have "store_inv s' (cf(l := xs @ a # ?n # ys))"
    proof (rule store_invI)
      fix l' show "chain s' l' ((cf(l := xs @ a # ?n # ys)) l')"
        using c1 c2 by auto
    next
      fix x assume "LIST (node_heap s' x) = None"
      then show "PREV (node_heap s' x) = None \<and> NEXT (node_heap s' x) = None"
        using store_invD(2)[OF inv, of x] a b by (auto simp: h split: if_splits)
    next
      fix x assume "x \<ge> node_count s'"
      then show "LIST (node_heap s' x) = None"
        using store_invD(3)[OF inv, of x] a b fresh by (auto simp: h cnt)
    next
      fix l' assume "l' \<ge> list_count s'"
      then show "(cf(l := xs @ a # ?n # ys)) l' = []"
        using store_invD(4)[OF inv, of l'] l by (auto simp: cnt)
    qed
    then show ?thesis using r cnt by (auto simp: h)
  qed
qed


lemma insertBeforeNode_inv:
  assumes inv: "store_inv s cf" and as: "cf l = xs @ a # ys"
  shows "\<exists>s'. insertBeforeNode s l a v = Inr (Some (node_count s), s') \<and>
           store_inv s' (cf(l := xs @ node_count s # a # ys)) \<and>
           node_count s' = Suc (node_count s) \<and> list_count s' = list_count s \<and>
           (\<forall>x. VALUE (node_heap s' x) = (if x = node_count s then v else VALUE (node_heap s x)))"
proof -
  let ?n = "node_count s"
  note ch = store_invD(1)[OF inv]
  note cl = chainD[OF ch[of l], unfolded as]
  have l: "l < list_count s" using store_invD(4)[OF inv, of l] as by (cases "l < list_count s") auto
  have a: "LIST (node_heap s a) = Some l" using cl(2)[of a] by simp
  have fresh: "LIST (node_heap s ?n) = None" using store_invD(3)[OF inv] by simp
  have nin: "?n \<notin> set (xs @ a # ys)" using cl(2)[of ?n] fresh by simp
  have d: "distinct (xs @ a # ys)" using cl(1) .
  show ?thesis
  proof (cases xs rule: rev_cases)
    case Nil
    then have first: "firstNode (list_heap s l) = Some a" using cl(3) by simp
    have "insertBeforeNode s l a v =
            (case prepend s l v of Inl e \<Rightarrow> Inl e | Inr (n, s') \<Rightarrow> Inr (Some n, s'))"
      using a first by (simp add: insertBeforeNode_def)
    then show ?thesis using prepend_inv[OF inv l, of v] as Nil by auto
  next
    case (snoc xs' p)
    have ap: "a \<noteq> p" "?n \<noteq> a" "?n \<noteq> p" using d nin snoc by auto
    have first: "firstNode (list_heap s l) \<noteq> Some a" using cl(3) d snoc by (cases xs') auto
    have pa: "PREV (node_heap s a) = Some p" using cl(6) snoc by (simp add: seg_append)
    have ex: "\<exists>s'. insertBeforeNode s l a v = Inr (Some ?n, s') \<and>
       node_heap s' = (\<lambda>x. if x = ?n then \<lparr>LIST = Some l, VALUE = v, PREV = Some p, NEXT = Some a\<rparr>
                            else if x = a then (node_heap s x)\<lparr>PREV := Some ?n\<rparr>
                            else if x = p then (node_heap s x)\<lparr>NEXT := Some ?n\<rparr>
                            else node_heap s x) \<and>
       (\<forall>l'. l' \<noteq> l \<longrightarrow> list_heap s' l' = list_heap s l') \<and>
       firstNode (list_heap s' l) = firstNode (list_heap s l) \<and>
       lastNode (list_heap s' l) = lastNode (list_heap s l) \<and>
       length_dll (list_heap s' l) = length_dll (list_heap s l) + 1 \<and>
       node_count s' = Suc ?n \<and> list_count s' = list_count s"
      using a first pa ap
      by (simp add: insertBeforeNode_def new_node_def write_NEXT_def write_PREV_def write_length_def fun_eq_iff)
    then obtain s' where r: "insertBeforeNode s l a v = Inr (Some ?n, s')"
      and h: "node_heap s' = (\<lambda>x. if x = ?n then \<lparr>LIST = Some l, VALUE = v, PREV = Some p, NEXT = Some a\<rparr>
                            else if x = a then (node_heap s x)\<lparr>PREV := Some ?n\<rparr>
                            else if x = p then (node_heap s x)\<lparr>NEXT := Some ?n\<rparr>
                            else node_heap s x)"
      and lh: "\<And>l'. l' \<noteq> l \<Longrightarrow> list_heap s' l' = list_heap s l'"
      and fl: "firstNode (list_heap s' l) = firstNode (list_heap s l)"
         "lastNode (list_heap s' l) = lastNode (list_heap s l)"
         "length_dll (list_heap s' l) = length_dll (list_heap s l) + 1"
      and cnt: "node_count s' = Suc ?n" "list_count s' = list_count s"
      by blast
    have p: "LIST (node_heap s p) = Some l" using cl(2)[of p] snoc by simp
    have 1: "seg (node_heap s') None xs' (Some p) = seg (node_heap s) None xs' (Some p)"
      by (rule seg_cong) (use d nin snoc in \<open>auto simp: h\<close>)
    have 2: "seg (node_heap s') (Some a) ys None = seg (node_heap s) (Some a) ys None"
      by (rule seg_cong) (use d nin snoc in \<open>auto simp: h\<close>)
    have sg0: "seg (node_heap s) None (xs' @ p # a # ys) None" using cl(6) snoc by simp
    have sg': "seg (node_heap s') None (xs' @ p # ?n # a # ys) None"
      using sg0 1 2 ap by (auto simp: seg_append h)
    have c1: "chain s' l (xs' @ p # ?n # a # ys)"
    proof (rule chainI)
      show "distinct (xs' @ p # ?n # a # ys)" using d nin snoc by auto
      show "{x. LIST (node_heap s' x) = Some l} = set (xs' @ p # ?n # a # ys)"
        using cl(2) snoc by (auto simp: h)
      show "firstNode (list_heap s' l) = (case xs' @ p # ?n # a # ys of [] \<Rightarrow> None | a # _ \<Rightarrow> Some a)"
        using cl(3) snoc by (cases xs') (simp_all add: fl)
      show "lastNode (list_heap s' l) = (if xs' @ p # ?n # a # ys = [] then None else Some (last (xs' @ p # ?n # a # ys)))"
        using cl(4) by (simp add: fl)
      show "length_dll (list_heap s' l) = int (length (xs' @ p # ?n # a # ys))"
        using cl(5) snoc by (simp add: fl)
    qed (rule sg')
    have c2: "\<And>l'. l' \<noteq> l \<Longrightarrow> chain s' l' (cf l')"
      by (rule chain_other[OF ch, of _ l]) (use a p fresh in \<open>simp_all add: h lh\<close>)
    have "store_inv s' (cf(l := xs @ ?n # a # ys))"
    proof (rule store_invI)
      fix l' show "chain s' l' ((cf(l := xs @ ?n # a # ys)) l')"
        using c1 c2 snoc by simp
    next
      fix x assume "LIST (node_heap s' x) = None"
      then show "PREV (node_heap s' x) = None \<and> NEXT (node_heap s' x) = None"
        using store_invD(2)[OF inv, of x] a p by (simp add: h split: if_splits)
    next
      fix x assume "x \<ge> node_count s'"
      then show "LIST (node_heap s' x) = None"
        using store_invD(3)[OF inv, of x] a p by (auto simp: h cnt)
    next
      fix l' assume "l' \<ge> list_count s'"
      then show "(cf(l := xs @ ?n # a # ys)) l' = []"
        using store_invD(4)[OF inv, of l'] l by (simp add: cnt)
    qed
    then show ?thesis using r cnt by (auto simp: h)
  qed
qed

lemma insert_foreign:
  assumes "LIST (node_heap s a) \<noteq> Some l"
  shows "insertAfterNode s l a v = Inr (None, s)" and "insertBeforeNode s l a v = Inr (None, s)"
  using assms by (simp_all add: insertAfterNode_def insertBeforeNode_def)

lemma new_list_inv:
  assumes inv: "store_inv s cf"
  shows "store_inv (snd (new_list s)) cf" and "cf (list_count s) = []"
    and "fst (new_list s) = list_count s"
    and "node_heap (snd (new_list s)) = node_heap s"
    and "l \<noteq> list_count s \<Longrightarrow> list_heap (snd (new_list s)) l = list_heap s l"
    and "node_count (snd (new_list s)) = node_count s"
    and "list_count (snd (new_list s)) = Suc (list_count s)"
proof -
  let ?s = "snd (new_list s)"
  show e: "cf (list_count s) = []" using store_invD(4)[OF inv, of "list_count s"] by simp
  show h: "node_heap ?s = node_heap s" by (simp add: new_list_def)
  show lh: "\<And>l. l \<noteq> list_count s \<Longrightarrow> list_heap ?s l = list_heap s l" by (simp add: new_list_def)
  show cnt: "node_count ?s = node_count s" "list_count ?s = Suc (list_count s)"
    by (simp_all add: new_list_def)
  show "fst (new_list s) = list_count s" by (simp add: new_list_def)
  show "store_inv ?s cf"
  proof (rule store_invI)
    fix l show "chain ?s l (cf l)"
    proof (cases "l = list_count s")
      case True
      have "chain s l []" using store_invD(1)[OF inv, of l] e True by simp
      then show ?thesis using e True by (simp add: chain_def new_list_def)
    next
      case False
      show ?thesis by (rule chain_frame[OF store_invD(1)[OF inv, of l]]) (simp_all add: h lh False)
    qed
  qed (use inv in \<open>auto simp: store_inv_def h cnt\<close>)
qed

lemma new_store_inv: "store_inv (new_store d) (\<lambda>_. [])"
  by (simp add: store_inv_def chain_def new_store_def)


lemma ext_refl [simp]: "ext s s"
  by (simp add: ext_def)

lemma ext_trans: "ext s s1 \<Longrightarrow> ext s1 s2 \<Longrightarrow> ext s s2"
  by (auto simp: ext_def)

lemma chain_allocated:
  assumes "store_inv s cf" and "a \<in> set (cf l)"
  shows "a < node_count s"
proof (rule ccontr)
  assume "\<not> a < node_count s"
  then have "LIST (node_heap s a) = None" using store_invD(3)[OF assms(1), of a] by simp
  then show False using chainD(2)[OF store_invD(1)[OF assms(1), of l], of a] assms(2) by simp
qed

lemma vals_ext:
  assumes "store_inv s cf" and "ext s s'" and "set as \<subseteq> set (cf l)"
  shows "vals s' as = vals s as"
  using assms chain_allocated[OF assms(1)] by (auto simp: vals_def ext_def)

lemma hd_opt_simps [simp]: "hd_opt [] = None" "hd_opt (a # as) = Some a"
  by (simp_all add: hd_opt_def)

lemma seg_NEXT: "seg h p (a # as) q \<Longrightarrow> NEXT (h a) = (case as of [] \<Rightarrow> q | b # _ \<Rightarrow> Some b)"
  by simp

subsection \<open>\<^verbatim>\<open>toArray\<close> on a well-formed store\<close>

lemma toArray_loop_seg:
  "seg (node_heap s) p ys None \<Longrightarrow>
   toArray_loop s (hd_opt ys) (length pre) (pre @ replicate (length ys) None)
     = Some (pre @ map Some (vals s ys))"
proof (induction ys arbitrary: p pre)
  case Nil
  then show ?case by (subst toArray_loop.simps) (simp add: vals_def)
next
  case (Cons y ys)
  have nx: "NEXT (node_heap s y) = hd_opt ys" using Cons.prems by (cases ys) simp_all
  have sg: "seg (node_heap s) (Some y) ys None" using Cons.prems by simp
  have st: "\<And>v rest. array_set (pre @ None # rest) (length pre) v = pre @ Some v # rest"
    by (simp add: array_set_def list_update_append)
  show ?case
    apply (subst toArray_loop.simps)
    using Cons.IH[OF sg, of "pre @ [Some (VALUE (node_heap s y))]"]
    by (simp add: nx st vals_def)
qed

lemma toArray_inv:
  assumes "store_inv s cf"
  shows "toArray s l = Some (Inr (map Some (vals s (cf l))))"
proof -
  note cl = chainD[OF store_invD(1)[OF assms, of l]]
  have "firstNode (list_heap s l) = hd_opt (cf l)" using cl(3) by (simp add: hd_opt_def)
  then show ?thesis using toArray_loop_seg[OF cl(6), of "[]"] cl(5)
    by (simp add: toArray_def)
qed

subsection \<open>\<^verbatim>\<open>getNodeAt\<close> on a well-formed store\<close>

lemma fromHead_seg:
  "seg (node_heap s) p as q \<Longrightarrow> k < length as \<Longrightarrow>
   getNodeAt_fromHead s k (hd_opt as) = Some (as ! k)"
proof (induction as arbitrary: p k)
  case Nil then show ?case by simp
next
  case (Cons a as)
  show ?case
  proof (cases k)
    case 0 then show ?thesis by simp
  next
    case (Suc k')
    have nx: "NEXT (node_heap s a) = hd_opt as" using Cons.prems Suc by (cases as) simp_all
    show ?thesis using Cons.IH[of "Some a" k'] Cons.prems Suc by (simp add: nx)
  qed
qed

lemma fromTail_seg:
  "seg (node_heap s) p as q \<Longrightarrow> k < length as \<Longrightarrow>
   getNodeAt_fromTail s k (hd_opt (rev as)) = Some (as ! (length as - 1 - k))"
proof (induction as arbitrary: q k rule: rev_induct)
  case Nil then show ?case by simp
next
  case (snoc a as)
  show ?case
  proof (cases k)
    case 0 then show ?thesis by simp
  next
    case (Suc k')
    have sg: "seg (node_heap s) p as (Some a)" and pv: "PREV (node_heap s a) = (if as = [] then p else Some (last as))"
      using snoc.prems by (simp_all add: seg_snoc)
    have k': "k' < length as" using snoc.prems Suc by simp
    then have ne: "as \<noteq> []" by auto
    have "hd_opt (rev as) = Some (last as)" using ne by (cases as rule: rev_cases) simp_all
    then have "getNodeAt_fromTail s k' (Some (last as)) = Some (as ! (length as - 1 - k'))"
      using snoc.IH[OF sg k'] by simp
    then show ?thesis using Suc pv ne k' by (simp add: nth_append)
  qed
qed

lemma getNodeAt_inv:
  assumes "store_inv s cf"
  shows "getNodeAt s l i =
           (let n = int (length (cf l)); j = (if i < 0 then n + i else i)
            in if 0 \<le> j \<and> j < n then Some (cf l ! nat j) else None)"
proof -
  note cl = chainD[OF store_invD(1)[OF assms, of l]]
  let ?n = "int (length (cf l))"
  let ?j = "if i < 0 then ?n + i else i"
  show ?thesis
  proof (cases "0 \<le> ?j \<and> ?j < ?n")
    case False
    then show ?thesis using cl(5) by (auto simp: getNodeAt_def Let_def)
  next
    case True
    then have ne: "cf l \<noteq> []" by auto
    have f: "firstNode (list_heap s l) = hd_opt (cf l)" using cl(3) by (simp add: hd_opt_def)
    have t: "lastNode (list_heap s l) = hd_opt (rev (cf l))"
      using cl(4) ne by (cases "cf l" rule: rev_cases) simp_all
    have jn: "nat ?j < length (cf l)" using True by auto
    show ?thesis
    proof (cases "?j \<le> ?n - 1 - ?j")
      case h: True
      have "getNodeAt s l i = getNodeAt_fromHead s (nat ?j) (hd_opt (cf l))"
        using True h cl(5) f by (auto simp: getNodeAt_def Let_def)
      then show ?thesis using fromHead_seg[OF cl(6) jn] True by (simp add: Let_def)
    next
      case h: False
      have k: "nat (?n - 1 - ?j) < length (cf l)" using True by auto
      have "getNodeAt s l i = getNodeAt_fromTail s (nat (?n - 1 - ?j)) (hd_opt (rev (cf l)))"
        using True h cl(5) t by (auto simp: getNodeAt_def Let_def)
      moreover have "length (cf l) - 1 - nat (?n - 1 - ?j) = nat ?j" using True by auto
      ultimately show ?thesis using fromTail_seg[OF cl(6) k] True by (simp add: Let_def)
    qed
  qed
qed

subsection \<open>The loops of splice\<close>

lemma append_ext:
  assumes "node_count s' = Suc (node_count s)" "list_count s' = list_count s"
    "\<forall>a. VALUE (node_heap s' a) = (if a = node_count s then v else VALUE (node_heap s a))"
  shows "ext s s'"
  using assms by (simp add: ext_def)

lemma append_items_inv:
  assumes "store_inv s cf" and "l < list_count s"
  shows "\<exists>s' new. append_items s l items = Inr s' \<and> store_inv s' (cf(l := cf l @ new)) \<and>
           ext s s' \<and> list_count s' = list_count s \<and> vals s' new = items"
  using assms
proof (induction items arbitrary: s cf)
  case Nil
  then show ?case by (intro exI[of _ s] exI[of _ "[]"]) (simp add: vals_def)
next
  case (Cons item items)
  let ?n = "node_count s"
  from append_inv[OF Cons.prems, of item] obtain s1 where
    r1: "append_dll s l item = Inr (?n, s1)" and inv1: "store_inv s1 (cf(l := cf l @ [?n]))"
    and cnt1: "node_count s1 = Suc ?n" "list_count s1 = list_count s"
    and v1: "\<forall>a. VALUE (node_heap s1 a) = (if a = ?n then item else VALUE (node_heap s a))"
    by blast
  have e1: "ext s s1" by (rule append_ext[OF cnt1 v1])
  have l1: "l < list_count s1" using Cons.prems cnt1 by simp
  from Cons.IH[OF inv1 l1] obtain s' new where
    r: "append_items s1 l items = Inr s'"
    and inv': "store_inv s' ((cf(l := cf l @ [?n]))(l := (cf(l := cf l @ [?n])) l @ new))"
    and e: "ext s1 s'" and cnt: "list_count s' = list_count s1" and v: "vals s' new = items"
    by blast
  have vn: "VALUE (node_heap s' ?n) = item" using e v1 cnt1 by (simp add: ext_def)
  show ?case
  proof (intro exI[of _ s'] exI[of _ "?n # new"] conjI)
    show "append_items s l (item # items) = Inr s'" using r1 r by simp
    show "store_inv s' (cf(l := cf l @ ?n # new))" using inv' by simp
    show "ext s s'" by (rule ext_trans[OF e1 e])
    show "list_count s' = list_count s" using cnt cnt1 by simp
    show "vals s' (?n # new) = item # items" using v vn by (simp add: vals_def)
  qed
qed

lemma splice_delete_inv:
  assumes "store_inv s cf" and "cf this = xs @ ys" and "removed \<noteq> this" and "removed < list_count s"
  shows "\<exists>s' new. splice_delete s this removed k (hd_opt ys) = Inr (hd_opt (drop k ys), s') \<and>
           store_inv s' (cf(this := xs @ drop k ys, removed := cf removed @ new)) \<and>
           ext s s' \<and> list_count s' = list_count s \<and> vals s' new = vals s (take k ys)"
  using assms
proof (induction k arbitrary: s cf ys)
  case 0
  show ?case
  proof (intro exI[of _ s] exI[of _ "[]"] conjI)
    show "store_inv s (cf(this := xs @ drop 0 ys, removed := cf removed @ []))"
      using 0 by (simp add: fun_upd_idem)
  qed (simp_all add: vals_def)
next
  case (Suc k)
  show ?case
  proof (cases ys)
    case Nil
    show ?thesis
    proof (intro exI[of _ s] exI[of _ "[]"] conjI)
      show "store_inv s (cf(this := xs @ drop (Suc k) ys, removed := cf removed @ []))"
        using Suc.prems Nil by (simp add: fun_upd_idem)
    qed (simp_all add: vals_def Nil)
  next
    case (Cons y ys')
    let ?n = "node_count s"
    let ?v = "VALUE (node_heap s y)"
    note cl = chainD[OF store_invD(1)[OF Suc.prems(1), of this], unfolded Suc.prems(2) Cons]
    have nx: "NEXT (node_heap s y) = hd_opt ys'"
      using cl(6) by (cases ys') (simp_all add: seg_append)
    from append_inv[OF Suc.prems(1,4), of ?v] obtain s1 where
      r1: "append_dll s removed ?v = Inr (?n, s1)"
      and inv1: "store_inv s1 (cf(removed := cf removed @ [?n]))"
      and cnt1: "node_count s1 = Suc ?n" "list_count s1 = list_count s"
      and v1: "\<forall>a. VALUE (node_heap s1 a) = (if a = ?n then ?v else VALUE (node_heap s a))"
      by blast
    let ?cf1 = "cf(removed := cf removed @ [?n])"
    have cf1: "?cf1 this = xs @ y # ys'" using Suc.prems(2,3) Cons by simp
    have y1: "LIST (node_heap s1 y) = Some this"
      using chainD(2)[OF store_invD(1)[OF inv1, of this], of y] cf1 by simp
    from remove_inv[OF inv1 y1] obtain s2 where
      r2: "remove_dll s1 this y = Inr (True, s2)"
      and inv2: "store_inv s2 (?cf1(this := remove1 y (?cf1 this)))"
      and cnt2: "node_count s2 = node_count s1" "list_count s2 = list_count s1"
      and v2: "\<forall>x. VALUE (node_heap s2 x) = VALUE (node_heap s1 x)"
      by blast
    have rm: "remove1 y (?cf1 this) = xs @ ys'"
      using cl(1) cf1 by (simp add: remove1_append)
    let ?cf2 = "?cf1(this := xs @ ys')"
    have inv2': "store_inv s2 ?cf2" using inv2 rm by simp
    have cf2: "?cf2 this = xs @ ys'" by simp
    have rl2: "removed < list_count s2" using Suc.prems(4) cnt1 cnt2 by simp
    from Suc.IH[OF inv2' cf2 Suc.prems(3) rl2] obtain s' new where
      r: "splice_delete s2 this removed k (hd_opt ys') = Inr (hd_opt (drop k ys'), s')"
      and inv': "store_inv s' (?cf2(this := xs @ drop k ys', removed := ?cf2 removed @ new))"
      and e: "ext s2 s'" and cnt: "list_count s' = list_count s2"
      and v: "vals s' new = vals s2 (take k ys')"
      by blast
    have e02: "ext s s2" using cnt1 cnt2 v1 v2 by (simp add: ext_def)
    have nfresh: "?n \<notin> set (cf this)"
      using chain_allocated[OF Suc.prems(1), of ?n this] by auto
    have "vals s2 (take k ys') = vals s (take k ys')"
      by (rule vals_ext[OF Suc.prems(1) e02, of _ this])
         (use Suc.prems(2) Cons in \<open>auto dest: in_set_takeD\<close>)
    moreover have "VALUE (node_heap s' ?n) = ?v"
      using e v1 v2 cnt1 cnt2 by (simp add: ext_def)
    ultimately have vv: "vals s' (?n # new) = vals s (take (Suc k) ys)"
      using v Cons by (simp add: vals_def)
    have cfeq: "?cf2(this := xs @ drop k ys', removed := ?cf2 removed @ new)
                 = cf(this := xs @ drop (Suc k) ys, removed := cf removed @ ?n # new)"
      using Suc.prems(3) Cons by (auto simp: fun_eq_iff)
    show ?thesis
    proof (intro exI[of _ s'] exI[of _ "?n # new"] conjI)
      show "splice_delete s this removed (Suc k) (hd_opt ys) = Inr (hd_opt (drop (Suc k) ys), s')"
        using r1 r2 r nx Cons by simp
      show "store_inv s' (cf(this := xs @ drop (Suc k) ys, removed := cf removed @ ?n # new))"
        using inv' cfeq by simp
      show "ext s s'" by (rule ext_trans[OF e02 e])
      show "list_count s' = list_count s" using cnt cnt1 cnt2 by simp
      show "vals s' (?n # new) = vals s (take (Suc k) ys)" by (rule vv)
    qed
  qed
qed

lemma splice_insert_after_inv:
  assumes "store_inv s cf" and "cf l = pre @ m # post"
  shows "\<exists>s' new. splice_insert s l a (Some m) items = Inr s' \<and>
           store_inv s' (cf(l := pre @ m # new @ post)) \<and>
           ext s s' \<and> list_count s' = list_count s \<and> vals s' new = items"
  using assms
proof (induction items arbitrary: s cf pre m)
  case Nil
  show ?case
  proof (intro exI[of _ s] exI[of _ "[]"] conjI)
    show "store_inv s (cf(l := pre @ m # [] @ post))"
      using Nil by (simp add: fun_upd_idem)
  qed (simp_all add: vals_def)
next
  case (Cons item items)
  let ?n = "node_count s"
  from insertAfterNode_inv[OF Cons.prems, of item] obtain s1 where
    r1: "insertAfterNode s l m item = Inr (Some ?n, s1)"
    and inv1: "store_inv s1 (cf(l := pre @ m # ?n # post))"
    and cnt1: "node_count s1 = Suc ?n" "list_count s1 = list_count s"
    and v1: "\<forall>a. VALUE (node_heap s1 a) = (if a = ?n then item else VALUE (node_heap s a))"
    by blast
  have e1: "ext s s1" by (rule append_ext[OF cnt1 v1])
  let ?cf1 = "cf(l := pre @ m # ?n # post)"
  have cf1: "?cf1 l = (pre @ [m]) @ ?n # post" by simp
  from Cons.IH[OF inv1 cf1] obtain s' new where
    r: "splice_insert s1 l a (Some ?n) items = Inr s'"
    and inv': "store_inv s' (?cf1(l := (pre @ [m]) @ ?n # new @ post))"
    and e: "ext s1 s'" and cnt: "list_count s' = list_count s1" and v: "vals s' new = items"
    by blast
  have vn: "VALUE (node_heap s' ?n) = item" using e v1 cnt1 by (simp add: ext_def)
  show ?case
  proof (intro exI[of _ s'] exI[of _ "?n # new"] conjI)
    show "splice_insert s l a (Some m) (item # items) = Inr s'" using r1 r by simp
    show "store_inv s' (cf(l := pre @ m # (?n # new) @ post))" using inv' by simp
    show "ext s s'" by (rule ext_trans[OF e1 e])
    show "list_count s' = list_count s" using cnt cnt1 by simp
    show "vals s' (?n # new) = item # items" using v vn by (simp add: vals_def)
  qed
qed

lemma splice_insert_inv:
  assumes "store_inv s cf" and "cf l = xs @ a # ys"
  shows "\<exists>s' new. splice_insert s l a None items = Inr s' \<and>
           store_inv s' (cf(l := xs @ new @ a # ys)) \<and>
           ext s s' \<and> list_count s' = list_count s \<and> vals s' new = items"
proof (cases items)
  case Nil
  show ?thesis
  proof (intro exI[of _ s] exI[of _ "[]"] conjI)
    show "store_inv s (cf(l := xs @ [] @ a # ys))"
      using assms by (simp add: fun_upd_idem)
  qed (simp_all add: vals_def Nil)
next
  case (Cons item items')
  let ?n = "node_count s"
  from insertBeforeNode_inv[OF assms, of item] obtain s1 where
    r1: "insertBeforeNode s l a item = Inr (Some ?n, s1)"
    and inv1: "store_inv s1 (cf(l := xs @ ?n # a # ys))"
    and cnt1: "node_count s1 = Suc ?n" "list_count s1 = list_count s"
    and v1: "\<forall>x. VALUE (node_heap s1 x) = (if x = ?n then item else VALUE (node_heap s x))"
    by blast
  have e1: "ext s s1" by (rule append_ext[OF cnt1 v1])
  let ?cf1 = "cf(l := xs @ ?n # a # ys)"
  have cf1: "?cf1 l = xs @ ?n # (a # ys)" by simp
  from splice_insert_after_inv[OF inv1 cf1, of a items'] obtain s' new where
    r: "splice_insert s1 l a (Some ?n) items' = Inr s'"
    and inv': "store_inv s' (?cf1(l := xs @ ?n # new @ (a # ys)))"
    and e: "ext s1 s'" and cnt: "list_count s' = list_count s1" and v: "vals s' new = items'"
    by blast
  have vn: "VALUE (node_heap s' ?n) = item" using e v1 cnt1 by (simp add: ext_def)
  show ?thesis
  proof (intro exI[of _ s'] exI[of _ "?n # new"] conjI)
    show "splice_insert s l a None items = Inr s'" using r1 r Cons by simp
    show "store_inv s' (cf(l := xs @ (?n # new) @ a # ys))" using inv' by simp
    show "ext s s'" by (rule ext_trans[OF e1 e])
    show "list_count s' = list_count s" using cnt cnt1 by simp
    show "vals s' (?n # new) = items" using v vn Cons by (simp add: vals_def)
  qed
qed


lemma splice_inv:
  assumes inv: "store_inv s cf" and l: "l < list_count s" and as: "cf l = xs @ ys"
    and st: "splice_startNode s l start = Some (hd_opt ys)"
  shows "\<exists>s' new rem. splice_dll s l start deleteCount items = Inr (list_count s, s') \<and>
           store_inv s' (cf(l := xs @ new @ drop (nat deleteCount) ys, list_count s := rem)) \<and>
           ext s s' \<and> list_count s' = Suc (list_count s) \<and>
           vals s' new = items \<and> vals s' rem = vals s (take (nat deleteCount) ys)"
proof -
  let ?r = "list_count s"
  define s1 where "s1 = snd (new_list s)"
  let ?k = "nat deleteCount"
  note nl = new_list_inv[OF inv, folded s1_def]
  have nl': "new_list s = (?r, s1)" using nl(3) by (simp add: prod_eq_iff s1_def)
  have rl: "?r \<noteq> l" "?r < list_count s1" using l nl(7) by simp_all
  have e01: "ext s s1" using nl(4,6,7) by (simp add: ext_def)
  from splice_delete_inv[OF nl(1) as rl, of ?k] obtain s2 rem where
    r2: "splice_delete s1 l ?r ?k (hd_opt ys) = Inr (hd_opt (drop ?k ys), s2)"
    and inv2: "store_inv s2 (cf(l := xs @ drop ?k ys, ?r := cf ?r @ rem))"
    and e2: "ext s1 s2" and cnt2: "list_count s2 = list_count s1"
    and v2: "vals s2 rem = vals s1 (take ?k ys)"
    by blast
  let ?cf2 = "cf(l := xs @ drop ?k ys, ?r := rem)"
  have inv2': "store_inv s2 ?cf2" using inv2 nl(2) by simp
  have v2': "vals s2 rem = vals s (take ?k ys)" using v2 nl(4) by (simp add: vals_def)
  have l2: "l < list_count s2" using l cnt2 nl(7) by simp
  have cf2l: "?cf2 l = xs @ drop ?k ys" using rl by simp
  have e02: "ext s s2" by (rule ext_trans[OF e01 e2])
  have "\<exists>s' new. splice_dll s l start deleteCount items = Inr (?r, s') \<and>
           store_inv s' (?cf2(l := xs @ new @ drop ?k ys)) \<and>
           ext s2 s' \<and> list_count s' = list_count s2 \<and> vals s' new = items"
  proof (cases items)
    case Nil
    show ?thesis
    proof (intro exI[of _ s2] exI[of _ "[]"] conjI)
      show "splice_dll s l start deleteCount items = Inr (?r, s2)"
        using st r2 Nil by (simp add: splice_dll_def nl')
      show "store_inv s2 (?cf2(l := xs @ [] @ drop ?k ys))"
        using inv2' rl by (simp add: fun_upd_twist)
    qed (simp_all add: vals_def Nil)
  next
    case (Cons item items')
    show ?thesis
    proof (cases "drop ?k ys")
      case dn: Nil
      from append_items_inv[OF inv2' l2, of items] obtain s' new where
        r: "append_items s2 l items = Inr s'"
        and inv': "store_inv s' (?cf2(l := ?cf2 l @ new))"
        and e: "ext s2 s'" and cnt: "list_count s' = list_count s2" and v: "vals s' new = items"
        by blast
      show ?thesis
      proof (intro exI[of _ s'] exI[of _ new] conjI)
        show "splice_dll s l start deleteCount items = Inr (?r, s')"
          using st r2 r Cons dn by (simp add: splice_dll_def nl')
        show "store_inv s' (?cf2(l := xs @ new @ drop ?k ys))"
          using inv' cf2l dn by simp
      qed (rule e cnt v)+
    next
      case dc: (Cons a ys')
      have cf2l': "?cf2 l = xs @ a # ys'" using cf2l dc by simp
      from splice_insert_inv[OF inv2' cf2l', of items] obtain s' new where
        r: "splice_insert s2 l a None items = Inr s'"
        and inv': "store_inv s' (?cf2(l := xs @ new @ a # ys'))"
        and e: "ext s2 s'" and cnt: "list_count s' = list_count s2" and v: "vals s' new = items"
        by blast
      show ?thesis
      proof (intro exI[of _ s'] exI[of _ new] conjI)
        show "splice_dll s l start deleteCount items = Inr (?r, s')"
          using st r2 r Cons dc by (simp add: splice_dll_def nl')
        show "store_inv s' (?cf2(l := xs @ new @ drop ?k ys))"
          using inv' dc by simp
      qed (rule e cnt v)+
    qed
  qed
  then obtain s' new where
    r: "splice_dll s l start deleteCount items = Inr (?r, s')"
    and inv': "store_inv s' (?cf2(l := xs @ new @ drop ?k ys))"
    and e: "ext s2 s'" and cnt: "list_count s' = list_count s2" and v: "vals s' new = items"
    by blast
  have cfeq: "?cf2(l := xs @ new @ drop ?k ys) = cf(l := xs @ new @ drop ?k ys, ?r := rem)"
    using rl by (auto simp: fun_eq_iff)
  have "vals s' rem = vals s2 rem"
    by (rule vals_ext[OF inv2' e, of _ ?r]) simp
  then have vr: "vals s' rem = vals s (take ?k ys)" using v2' by simp
  have "splice_dll s l start deleteCount items = Inr (list_count s, s') \<and>
           store_inv s' (cf(l := xs @ new @ drop (nat deleteCount) ys, list_count s := rem)) \<and>
           ext s s' \<and> list_count s' = Suc (list_count s) \<and>
           vals s' new = items \<and> vals s' rem = vals s (take (nat deleteCount) ys)"
  proof (intro conjI)
    show "store_inv s' (cf(l := xs @ new @ drop ?k ys, ?r := rem))" using inv' cfeq by simp
    show "ext s s'" by (rule ext_trans[OF e02 e])
    show "list_count s' = Suc (list_count s)" using cnt cnt2 nl(7) by simp
  qed (rule r v vr)+
  then show ?thesis by blast
qed

lemma splice_foreign:
  assumes "LIST (node_heap s n) \<noteq> Some l"
  shows "splice_dll s l (Node n) deleteCount items = Inr (new_list s)"
  using assms by (simp add: splice_dll_def splice_startNode_def)

text \<open>Where the three forms of \<^verbatim>\<open>start\<close> resolve to.\<close>

lemma startNode_Undefined:
  "splice_startNode s l Undefined = Some (hd_opt [])"
  by (simp add: splice_startNode_def)

lemma startNode_Node:
  assumes "store_inv s cf" and "cf l = xs @ n # ys"
  shows "splice_startNode s l (Node n) = Some (hd_opt (n # ys))"
  using chainD(2)[OF store_invD(1)[OF assms(1), of l], of n] assms(2)
  by (simp add: splice_startNode_def)

lemma startNode_Index:
  assumes "store_inv s cf"
  shows "splice_startNode s l (Index i) =
           Some (hd_opt (drop (nat (if i < 0 then max 0 (int (length (cf l)) + i)
                                    else min i (int (length (cf l))))) (cf l)))"
proof -
  note cl = chainD[OF store_invD(1)[OF assms, of l]]
  let ?n = "int (length (cf l))"
  let ?st = "if i < 0 then max 0 (?n + i) else min i ?n"
  have b: "0 \<le> ?st" "?st \<le> ?n" by auto
  show ?thesis
  proof (cases "?st \<ge> ?n")
    case True
    then show ?thesis using cl(5) by (simp add: splice_startNode_def Let_def)
  next
    case False
    then have lt: "nat ?st < length (cf l)" using b by linarith
    have "getNodeAt s l ?st = Some (cf l ! nat ?st)"
      using getNodeAt_inv[OF assms, of l ?st] b False by (simp add: Let_def)
    moreover have "hd_opt (drop (nat ?st) (cf l)) = Some (cf l ! nat ?st)"
      using lt by (simp add: hd_opt_def Cons_nth_drop_Suc[symmetric])
    ultimately show ?thesis using cl(5) False by (simp add: splice_startNode_def Let_def)
  qed
qed

subsection \<open>\<^verbatim>\<open>clear\<close>, \<^verbatim>\<open>pop\<close>, \<^verbatim>\<open>shift\<close>, the constructor\<close>

lemma remove_ext:
  assumes "node_count s' = node_count s" "list_count s' = list_count s"
    "\<forall>x. VALUE (node_heap s' x) = VALUE (node_heap s x)"
  shows "ext s s'"
  using assms by (simp add: ext_def)

lemma clear_inv:
  assumes "store_inv s cf"
  shows "\<exists>s'. clear s l = Some (Inr s') \<and> store_inv s' (cf(l := [])) \<and>
           ext s s' \<and> list_count s' = list_count s"
  using assms
proof (induction "cf l" arbitrary: s cf)
  case Nil
  note cl = chainD[OF store_invD(1)[OF Nil.prems, of l], folded Nil.hyps]
  have "clear s l = Some (Inr s)" using cl(3) by (subst clear.simps) simp
  moreover have "cf(l := []) = cf" using Nil.hyps by (simp add: fun_upd_idem)
  ultimately show ?case using Nil.prems by (intro exI[of _ s]) simp
next
  case (Cons a as)
  note cl = chainD[OF store_invD(1)[OF Cons.prems, of l], folded Cons.hyps(2)]
  have f: "firstNode (list_heap s l) = Some a" using cl(3) by simp
  have a: "LIST (node_heap s a) = Some l" using cl(2)[of a] by simp
  from remove_inv[OF Cons.prems a] obtain s1 where
    r1: "remove_dll s l a = Inr (True, s1)"
    and inv1: "store_inv s1 (cf(l := remove1 a (cf l)))"
    and cnt1: "node_count s1 = node_count s" "list_count s1 = list_count s"
    and v1: "\<forall>x. VALUE (node_heap s1 x) = VALUE (node_heap s x)"
    by blast
  have rm: "remove1 a (cf l) = as" using Cons.hyps(2)[symmetric] by simp
  let ?cf1 = "cf(l := as)"
  have inv1': "store_inv s1 ?cf1" using inv1 rm by simp
  have "as = ?cf1 l" by simp
  from Cons.hyps(1)[OF this inv1'] obtain s' where
    r: "clear s1 l = Some (Inr s')" and inv': "store_inv s' (?cf1(l := []))"
    and e: "ext s1 s'" and cnt: "list_count s' = list_count s1"
    by blast
  show ?case
  proof (intro exI[of _ s'] conjI)
    show "clear s l = Some (Inr s')" using f r1 r by (subst clear.simps) simp
    show "store_inv s' (cf(l := []))" using inv' by simp
    show "ext s s'" by (rule ext_trans[OF remove_ext[OF cnt1 v1] e])
    show "list_count s' = list_count s" using cnt cnt1 by simp
  qed
qed

lemma pop_inv:
  assumes "store_inv s cf"
  shows "\<exists>r s'. pop s l = Inr (r, s') \<and> store_inv s' (cf(l := butlast (cf l))) \<and>
           ext s s' \<and> list_count s' = list_count s \<and>
           r = (if cf l = [] then None else Some (last (vals s (cf l))))"
proof (cases "cf l" rule: rev_cases)
  case Nil
  note cl = chainD[OF store_invD(1)[OF assms, of l], unfolded Nil]
  have "cf(l := butlast (cf l)) = cf" using Nil by (simp add: fun_upd_idem)
  then show ?thesis using cl(4) assms Nil by (simp add: pop_def)
next
  case (snoc as a)
  note cl = chainD[OF store_invD(1)[OF assms, of l], unfolded snoc]
  have t: "lastNode (list_heap s l) = Some a" using cl(4) by simp
  have a: "LIST (node_heap s a) = Some l" using cl(2)[of a] by simp
  from remove_inv[OF assms a] obtain s1 where
    r1: "remove_dll s l a = Inr (True, s1)"
    and inv1: "store_inv s1 (cf(l := remove1 a (cf l)))"
    and cnt1: "node_count s1 = node_count s" "list_count s1 = list_count s"
    and v1: "\<forall>x. VALUE (node_heap s1 x) = VALUE (node_heap s x)"
    by blast
  have "remove1 a (cf l) = as" using cl(1) snoc by (simp add: remove1_append)
  then have "store_inv s1 (cf(l := butlast (cf l)))" using inv1 snoc by simp
  then show ?thesis using t r1 snoc remove_ext[OF cnt1 v1] cnt1
    by (simp add: pop_def vals_def)
qed

lemma shift_inv:
  assumes "store_inv s cf"
  shows "\<exists>r s'. shift s l = Inr (r, s') \<and> store_inv s' (cf(l := tl (cf l))) \<and>
           ext s s' \<and> list_count s' = list_count s \<and>
           r = (if cf l = [] then None else Some (hd (vals s (cf l))))"
proof (cases "cf l")
  case Nil
  note cl = chainD[OF store_invD(1)[OF assms, of l], unfolded Nil]
  have "cf(l := tl (cf l)) = cf" using Nil by (simp add: fun_upd_idem)
  then show ?thesis using cl(3) assms Nil by (simp add: shift_def)
next
  case (Cons a as)
  note cl = chainD[OF store_invD(1)[OF assms, of l], unfolded Cons]
  have t: "firstNode (list_heap s l) = Some a" using cl(3) by simp
  have a: "LIST (node_heap s a) = Some l" using cl(2)[of a] by simp
  from remove_inv[OF assms a] obtain s1 where
    r1: "remove_dll s l a = Inr (True, s1)"
    and inv1: "store_inv s1 (cf(l := remove1 a (cf l)))"
    and cnt1: "node_count s1 = node_count s" "list_count s1 = list_count s"
    and v1: "\<forall>x. VALUE (node_heap s1 x) = VALUE (node_heap s x)"
    by blast
  have "store_inv s1 (cf(l := tl (cf l)))" using inv1 Cons by simp
  then show ?thesis using t r1 Cons remove_ext[OF cnt1 v1] cnt1
    by (simp add: shift_def vals_def)
qed

lemma constructor_inv:
  assumes "store_inv s cf"
  shows "\<exists>s' new. constructor s items = Inr (list_count s, s') \<and>
           store_inv s' (cf(list_count s := new)) \<and> ext s s' \<and>
           list_count s' = Suc (list_count s) \<and> vals s' new = items"
proof -
  let ?r = "list_count s"
  define s1 where "s1 = snd (new_list s)"
  note nl = new_list_inv[OF assms, folded s1_def]
  have nl': "new_list s = (?r, s1)" using nl(3) by (simp add: prod_eq_iff s1_def)
  have e01: "ext s s1" using nl(4,6,7) by (simp add: ext_def)
  have rl: "?r < list_count s1" using nl(7) by simp
  from append_items_inv[OF nl(1) rl, of items] obtain s' new where
    r: "append_items s1 ?r items = Inr s'"
    and inv': "store_inv s' (cf(?r := cf ?r @ new))"
    and e: "ext s1 s'" and cnt: "list_count s' = list_count s1" and v: "vals s' new = items"
    by blast
  have "constructor s items =
          (case append_items s1 ?r items of Inl e \<Rightarrow> Inl e | Inr s2 \<Rightarrow> Inr (?r, s2))"
    by (cases items) (simp_all add: constructor_def nl')
  then have r': "constructor s items = Inr (?r, s')"
    using r by simp
  show ?thesis
  proof (intro exI[of _ s'] exI[of _ new] conjI)
    show "store_inv s' (cf(?r := new))" using inv' nl(2) by simp
    show "ext s s'" by (rule ext_trans[OF e01 e])
    show "list_count s' = Suc ?r" using cnt nl(7) by simp
  qed (rule r' v)+
qed

subsection \<open>Programs preserve the invariant and do not fail\<close>

lemma splice_total:
  assumes inv: "store_inv s cf" and l: "l < list_count s"
  shows "\<exists>s' cf'. splice_dll s l start deleteCount items = Inr (list_count s, s') \<and>
           store_inv s' cf' \<and> ext s s'"
proof (cases start)
  case (Index i)
  let ?k = "nat (if i < 0 then max 0 (int (length (cf l)) + i) else min i (int (length (cf l))))"
  have as: "cf l = take ?k (cf l) @ drop ?k (cf l)" by simp
  show ?thesis
    using splice_inv[OF inv l as, of start deleteCount items] startNode_Index[OF inv, of l i] Index
    by auto
next
  case (Node n)
  show ?thesis
  proof (cases "LIST (node_heap s n) = Some l")
    case True
    then have "n \<in> set (cf l)" using chainD(2)[OF store_invD(1)[OF inv, of l], of n] by simp
    then obtain xs ys where as: "cf l = xs @ n # ys" by (meson split_list)
    show ?thesis
      using splice_inv[OF inv l as, of start deleteCount items] startNode_Node[OF inv as] Node
      by auto
  next
    case False
    note nl = new_list_inv[OF inv]
    have "ext s (snd (new_list s))" using nl(4,6,7) by (simp add: ext_def)
    then show ?thesis using splice_foreign[OF False, of deleteCount items] nl(1,3) Node
      by (auto simp: prod_eq_iff)
  qed
next
  case Undefined
  have as: "cf l = cf l @ []" by simp
  show ?thesis
    using splice_inv[OF inv l as, of start deleteCount items] startNode_Undefined[of s l] Undefined
    by auto
qed

lemma exec_inv:
  assumes inv: "store_inv s cf" and ok: "call_ok s c"
  shows "\<exists>s' cf'. exec s c = Some (Inr s') \<and> store_inv s' cf' \<and> ext s s'"
proof (cases c)
  case (New items)
  then show ?thesis using constructor_inv[OF inv, of items] by auto
next
  case (Append l item)
  then show ?thesis using append_inv[OF inv, of l item] ok append_ext by fastforce
next
  case (Prepend l item)
  then show ?thesis using prepend_inv[OF inv, of l item] ok append_ext by fastforce
next
  case (Push l item)
  then show ?thesis using append_inv[OF inv, of l item] ok append_ext
    by (fastforce simp: push_def)
next
  case (Unshift l item)
  then show ?thesis using prepend_inv[OF inv, of l item] ok append_ext
    by (fastforce simp: unshift_def)
next
  case (Pop l)
  then show ?thesis using pop_inv[OF inv, of l] by auto
next
  case (Shift l)
  then show ?thesis using shift_inv[OF inv, of l] by auto
next
  case (Clear l)
  then show ?thesis using clear_inv[OF inv, of l] by auto
next
  case (Remove l n)
  show ?thesis
  proof (cases "LIST (node_heap s n) = Some l")
    case True
    then show ?thesis using remove_inv[OF inv True] remove_ext Remove by fastforce
  next
    case False
    then show ?thesis using remove_foreign[OF inv False] inv Remove by auto
  qed
next
  case (InsertAfterNode l n item)
  show ?thesis
  proof (cases "LIST (node_heap s n) = Some l")
    case True
    then have "n \<in> set (cf l)" using chainD(2)[OF store_invD(1)[OF inv, of l], of n] by simp
    then obtain xs ys where as: "cf l = xs @ n # ys" by (meson split_list)
    show ?thesis using insertAfterNode_inv[OF inv as, of item] append_ext InsertAfterNode
      by fastforce
  next
    case False
    then show ?thesis using insert_foreign(1)[OF False] inv InsertAfterNode by auto
  qed
next
  case (InsertBeforeNode l n item)
  show ?thesis
  proof (cases "LIST (node_heap s n) = Some l")
    case True
    then have "n \<in> set (cf l)" using chainD(2)[OF store_invD(1)[OF inv, of l], of n] by simp
    then obtain xs ys where as: "cf l = xs @ n # ys" by (meson split_list)
    show ?thesis using insertBeforeNode_inv[OF inv as, of item] append_ext InsertBeforeNode
      by fastforce
  next
    case False
    then show ?thesis using insert_foreign(2)[OF False] inv InsertBeforeNode by auto
  qed
next
  case (Splice l st deleteCount items)
  then show ?thesis using splice_total[OF inv, of l st deleteCount items] ok by auto
qed

lemma run_inv:
  assumes "store_inv s cf"
  shows "\<exists>s' cf'. run s cs = Some (Inr s') \<and> store_inv s' cf' \<and> ext s s'"
  using assms
proof (induction cs arbitrary: s cf)
  case Nil
  then show ?case by auto
next
  case (Cons c cs)
  show ?case
  proof (cases "call_ok s c")
    case True
    from exec_inv[OF Cons.prems True] obtain s1 cf1 where
      r1: "exec s c = Some (Inr s1)" and inv1: "store_inv s1 cf1" and e1: "ext s s1" by blast
    from Cons.IH[OF inv1] obtain s' cf' where
      "run s1 cs = Some (Inr s')" "store_inv s' cf'" "ext s1 s'" by blast
    then show ?thesis using r1 True ext_trans[OF e1] by auto
  next
    case False
    then show ?thesis using Cons.IH[OF Cons.prems] by auto
  qed
qed

lemma reachable_inv: "reachable s \<Longrightarrow> \<exists>cf. store_inv s cf"
  unfolding reachable_def using run_inv[OF new_store_inv] by (metis option.inject sum.inject(2))

lemma run_after: "run (new_store d) cs = Some (Inr (after d cs))"
  using run_inv[OF new_store_inv, of d cs] by (auto simp: after_def)

lemma reachable_after: "reachable (after d cs)"
  unfolding reachable_def using run_after[of d cs] by blast

subsection \<open>Following the links\<close>

lemma next_times_step:
  "next_times s k (Option.bind c (\<lambda>a. NEXT (node_heap s a))) =
   Option.bind (next_times s k c) (\<lambda>a. NEXT (node_heap s a))"
  by (induction k) simp_all

lemma previous_times_step:
  "previous_times s k (Option.bind c (\<lambda>a. PREV (node_heap s a))) =
   Option.bind (previous_times s k c) (\<lambda>a. PREV (node_heap s a))"
  by (induction k) simp_all

lemma next_times_None [simp]: "next_times s k None = None"
  by (induction k) simp_all

lemma previous_times_None [simp]: "previous_times s k None = None"
  by (induction k) simp_all

lemma fromHead_next_times: "getNodeAt_fromHead s k c = next_times s k c"
proof (induction k arbitrary: c)
  case 0 then show ?case by simp
next
  case (Suc k)
  show ?case
  proof (cases c)
    case None
    then show ?thesis by simp
  next
    case (Some a)
    then show ?thesis using Suc[of "NEXT (node_heap s a)"] next_times_step[of s k "Some a"] by simp
  qed
qed

lemma fromTail_previous_times: "getNodeAt_fromTail s k c = previous_times s k c"
proof (induction k arbitrary: c)
  case 0 then show ?case by simp
next
  case (Suc k)
  show ?case
  proof (cases c)
    case None
    then show ?thesis by simp
  next
    case (Some a)
    then show ?thesis using Suc[of "PREV (node_heap s a)"] previous_times_step[of s k "Some a"] by simp
  qed
qed

subsection \<open>\<^verbatim>\<open>toArray\<close> reads the nodes and its own list only\<close>

lemma toArray_loop_heap_Some_aux:
  assumes "toArray_loop s c i out = Some r"
  shows "\<forall>s'. node_heap s' = node_heap s \<longrightarrow> toArray_loop s' c i out = Some r"
  using assms
proof (induction rule: toArray_loop.raw_induct)
  case (1 loop s c i out r)
  show ?case
  proof (intro allI impI)
    fix s' :: "'a store"
    assume h: "node_heap s' = node_heap s"
    show "toArray_loop s' c i out = Some r"
    proof (cases c)
      case None
      then show ?thesis using 1(2) by (subst toArray_loop.simps) simp
    next
      case (Some a)
      then have a: "loop s (NEXT (node_heap s a)) (i + 1) (array_set out i (VALUE (node_heap s a))) = Some r"
        using 1(2) by simp
      have b: "toArray_loop s (NEXT (node_heap s a)) (i + 1) (array_set out i (VALUE (node_heap s a))) = Some r"
        using 1(3) Some by (subst (asm) toArray_loop.simps) simp
      from 1(1)[OF a b] h Some show ?thesis
        by (subst toArray_loop.simps) simp
    qed
  qed
qed (rule assms)

lemma toArray_loop_heap_Some:
  assumes "toArray_loop s c i out = Some r" and "node_heap s' = node_heap s"
  shows "toArray_loop s' c i out = Some r"
  using toArray_loop_heap_Some_aux[OF assms(1)] assms(2) by blast

lemma toArray_loop_heap:
  assumes "node_heap s' = node_heap s"
  shows "toArray_loop s' c i out = toArray_loop s c i out"
proof (cases "toArray_loop s c i out")
  case (Some r)
  then show ?thesis using toArray_loop_heap_Some[OF Some assms] by simp
next
  case None
  show ?thesis
  proof (cases "toArray_loop s' c i out")
    case (Some r)
    then show ?thesis using toArray_loop_heap_Some[OF Some assms[symmetric]] None by simp
  qed (simp add: None)
qed

lemma toArray_frame:
  assumes "node_heap s' = node_heap s" and "list_heap s' l = list_heap s l"
  shows "toArray s' l = toArray s l"
  using assms toArray_loop_heap[OF assms(1)] by (simp add: toArray_def)

lemma toArray_new_list: "toArray (snd (new_list s)) (fst (new_list s)) = Some (Inr [])"
  by (simp add: toArray_def new_list_def) (subst toArray_loop.simps, simp)

subsection \<open>The effect of \<^verbatim>\<open>splice\<close> on the arrays\<close>

lemma vals_append [simp]: "vals s (as @ bs) = vals s as @ vals s bs"
  and vals_take: "vals s (take k as) = take k (vals s as)"
  and vals_drop: "vals s (drop k as) = drop k (vals s as)"
  and length_vals [simp]: "length (vals s as) = length as"
  by (simp_all add: vals_def take_map drop_map)

lemma splice_at:
  assumes inv: "store_inv s cf" and l: "this < list_count s" and as: "cf this = as0 @ ys0"
    and st: "splice_startNode s this start = Some (hd_opt ys0)"
  shows "\<exists>s'. splice_dll s this start deleteCount items = Inr (list_count s, s') \<and>
           toArray s' this =
             Some (Inr (map Some (vals s as0 @ items @ vals s (drop (nat deleteCount) ys0)))) \<and>
           toArray s' (list_count s) = Some (Inr (map Some (vals s (take (nat deleteCount) ys0)))) \<and>
           (\<forall>j<length (drop (nat deleteCount) ys0).
              getNodeAt s' this (int (length as0 + length items + j))
                = Some (drop (nat deleteCount) ys0 ! j)) \<and>
           (\<exists>cf'. store_inv s' cf' \<and>
                  length (cf' this) = length as0 + length items + length (drop (nat deleteCount) ys0))"
proof -
  let ?k = "nat deleteCount"
  let ?r = "list_count s"
  from splice_inv[OF inv l as st, of deleteCount items] obtain s' new rem where
    r: "splice_dll s this start deleteCount items = Inr (?r, s')"
    and inv': "store_inv s' (cf(this := as0 @ new @ drop ?k ys0, ?r := rem))"
    and e: "ext s s'" and v: "vals s' new = items" and vr: "vals s' rem = vals s (take ?k ys0)"
    by blast
  let ?cf' = "cf(this := as0 @ new @ drop ?k ys0, ?r := rem)"
  have cft: "?cf' this = as0 @ new @ drop ?k ys0" and cfr: "?cf' ?r = rem" using l by simp_all
  have ln: "length new = length items" using v length_vals[of s' new] by simp
  have 1: "vals s' as0 = vals s as0"
    by (rule vals_ext[OF inv e, of _ this]) (simp add: as)
  have 2: "vals s' (drop ?k ys0) = vals s (drop ?k ys0)"
    by (rule vals_ext[OF inv e, of _ this]) (use as in \<open>auto dest: in_set_dropD\<close>)
  have t: "toArray s' this = Some (Inr (map Some (vals s as0 @ items @ vals s (drop ?k ys0))))"
    using toArray_inv[OF inv', of this] cft 1 2 v by simp
  have tr: "toArray s' ?r = Some (Inr (map Some (vals s (take ?k ys0))))"
    using toArray_inv[OF inv', of ?r] cfr vr by simp
  have g: "getNodeAt s' this (int (length as0 + length items + j)) = Some (drop ?k ys0 ! j)"
    if "j < length (drop ?k ys0)" for j
  proof -
    define m where "m = length as0 + length items + j"
    have m: "m < length (as0 @ new @ drop ?k ys0)" using that ln by (simp add: m_def)
    have "getNodeAt s' this (int m) = Some ((as0 @ new @ drop ?k ys0) ! m)"
      using getNodeAt_inv[OF inv', of this "int m"] m unfolding cft by (simp add: Let_def)
    moreover have "(as0 @ new @ drop ?k ys0) ! m = drop ?k ys0 ! j"
      using ln by (simp add: nth_append m_def)
    ultimately show ?thesis by (simp add: m_def)
  qed
  have c: "\<exists>cf'. store_inv s' cf' \<and>
             length (cf' this) = length as0 + length items + length (drop ?k ys0)"
    using inv' cft ln by (intro exI[of _ ?cf']) simp
  show ?thesis using r t tr g c by blast
qed

lemma clampedStart_range: "0 \<le> len \<Longrightarrow> 0 \<le> clampedStart len i \<and> clampedStart len i \<le> len"
  by (auto simp: clampedStart_def)

lemma clampedStart_eq:
  "(if i < 0 then max 0 (len + i) else min i len) = clampedStart len i"
  by (auto simp: clampedStart_def)

subsection \<open>Well-formedness from the invariant\<close>

lemma count_NEXT_seg:
  "seg (node_heap s) p ys None \<Longrightarrow> count_NEXT s (hd_opt ys) k = Some (k + length ys)"
proof (induction ys arbitrary: p k)
  case Nil
  then show ?case by (subst count_NEXT.simps) simp
next
  case (Cons y ys)
  have nx: "NEXT (node_heap s y) = hd_opt ys" using Cons.prems by (cases ys) simp_all
  have sg: "seg (node_heap s) (Some y) ys None" using Cons.prems by simp
  show ?case using Cons.IH[OF sg, of "k + 1"] by (subst count_NEXT.simps) (simp add: nx)
qed

lemma count_PREV_seg:
  "seg (node_heap s) None as q \<Longrightarrow> count_PREV s (hd_opt (rev as)) k = Some (k + length as)"
proof (induction as arbitrary: q k rule: rev_induct)
  case Nil
  then show ?case by (subst count_PREV.simps) simp
next
  case (snoc a as)
  have sg: "seg (node_heap s) None as (Some a)"
    and pv: "PREV (node_heap s a) = (if as = [] then None else Some (last as))"
    using snoc.prems by (simp_all add: seg_snoc)
  have "PREV (node_heap s a) = hd_opt (rev as)"
    using pv by (cases as rule: rev_cases) simp_all
  then show ?case using snoc.IH[OF sg, of "k + 1"] by (subst count_PREV.simps) simp
qed

lemma seg_mid:
  assumes "seg h p (xs @ a # ys) q"
  shows "PREV (h a) = (if xs = [] then p else Some (last xs))"
    and "NEXT (h a) = (case ys of [] \<Rightarrow> q | y # _ \<Rightarrow> Some y)"
  using assms by (simp_all add: seg_append)

lemma links_symmetric:
  assumes inv: "store_inv s cf"
  shows "NEXT (node_heap s A) = Some B \<longleftrightarrow> PREV (node_heap s B) = Some A"
proof
  assume nx: "NEXT (node_heap s A) = Some B"
  then obtain l where own: "LIST (node_heap s A) = Some l"
    using store_invD(2)[OF inv, of A] by (cases "LIST (node_heap s A)") auto
  note cl = chainD[OF store_invD(1)[OF inv, of l]]
  from own have "A \<in> set (cf l)" using cl(2)[of A] by simp
  then obtain xs ys where as: "cf l = xs @ A # ys" by (meson split_list)
  have sg: "seg (node_heap s) None (xs @ A # ys) None" using cl(6) as by simp
  from seg_mid(2)[OF sg] nx obtain ys' where ys: "ys = B # ys'" by (cases ys) auto
  have "seg (node_heap s) None ((xs @ [A]) @ B # ys') None" using sg ys by simp
  from seg_mid(1)[OF this] show "PREV (node_heap s B) = Some A" by simp
next
  assume pv: "PREV (node_heap s B) = Some A"
  then obtain l where own: "LIST (node_heap s B) = Some l"
    using store_invD(2)[OF inv, of B] by (cases "LIST (node_heap s B)") auto
  note cl = chainD[OF store_invD(1)[OF inv, of l]]
  from own have "B \<in> set (cf l)" using cl(2)[of B] by simp
  then obtain xs ys where as: "cf l = xs @ B # ys" by (meson split_list)
  have sg: "seg (node_heap s) None (xs @ B # ys) None" using cl(6) as by simp
  from seg_mid(1)[OF sg] pv have ne: "xs \<noteq> []" and la: "last xs = A" by (auto split: if_splits)
  then obtain xs' where xs: "xs = xs' @ [A]" by (metis append_butlast_last_id)
  have "seg (node_heap s) None (xs' @ A # B # ys) None" using sg xs by simp
  from seg_mid(2)[OF this] show "NEXT (node_heap s A) = Some B" by simp
qed

lemma wellFormed_inv:
  assumes inv: "store_inv s cf"
  shows "wellFormed s l"
proof -
  note cl = chainD[OF store_invD(1)[OF inv, of l]]
  have f: "getHead s l = hd_opt (cf l)" using cl(3) by (simp add: hd_opt_def getHead_def)
  have t: "getTail s l = hd_opt (rev (cf l))"
    using cl(4) by (cases "cf l" rule: rev_cases) (simp_all add: getTail_def)
  have len: "getLength s l = int (length (cf l))" using cl(5) by (simp add: getLength_def)
  have 1: "map_option int (count_NEXT s (getHead s l) 0) = Some (getLength s l)"
    using count_NEXT_seg[OF cl(6), of 0] by (simp add: f len)
  have 2: "map_option int (count_PREV s (getTail s l) 0) = Some (getLength s l)"
    using count_PREV_seg[OF cl(6), of 0] by (simp add: t len)
  have 3: "getLength s l = 0 \<longrightarrow> getHead s l = None \<and> getTail s l = None"
    by (simp add: f t len)
  have 4: "getLength s l \<noteq> 0 \<longrightarrow>
        (\<exists>h t. getHead s l = Some h \<and> getTail s l = Some t \<and>
               PREV (node_heap s h) = None \<and> NEXT (node_heap s t) = None)"
  proof
    assume "getLength s l \<noteq> 0"
    then have ne: "cf l \<noteq> []" using len by auto
    then obtain h xs where c1: "cf l = h # xs" by (cases "cf l") auto
    from ne obtain ys t' where c2: "cf l = ys @ [t']" by (metis rev_exhaust)
    have "PREV (node_heap s h) = None" using cl(6) c1 by simp
    moreover have "NEXT (node_heap s t') = None" using cl(6) c2 by (simp add: seg_snoc)
    moreover have "getHead s l = Some h" using f c1 by simp
    moreover have "getTail s l = Some t'" using t c2 by simp
    ultimately show "\<exists>h t. getHead s l = Some h \<and> getTail s l = Some t \<and>
               PREV (node_heap s h) = None \<and> NEXT (node_heap s t) = None"
      by blast
  qed
  show ?thesis unfolding wellFormed_def using 1 2 3 4 links_symmetric[OF inv] by blast
qed

lemma run_append:
  "run s (cs @ cs') = (case run s cs of Some (Inr s1) \<Rightarrow> run s1 cs' | r \<Rightarrow> r)"
  by (induction cs arbitrary: s) (auto split: option.splits sum.splits)

subsection \<open>\<^verbatim>\<open>indexOf\<close> on a well-formed store\<close>

lemma indexOf_skip_seg:
  "seg (node_heap s) p ys None \<Longrightarrow>
   indexOf_skip s fromIndex (hd_opt ys) i =
     Some (hd_opt (drop (min (nat (fromIndex - i)) (length ys)) ys),
           i + int (min (nat (fromIndex - i)) (length ys)))"
proof (induction ys arbitrary: p i)
  case Nil
  then show ?case by (subst indexOf_skip.simps) simp
next
  case (Cons y ys)
  have nx: "NEXT (node_heap s y) = hd_opt ys" using Cons.prems by (cases ys) simp_all
  have sg: "seg (node_heap s) (Some y) ys None" using Cons.prems by simp
  show ?case
  proof (cases "i < fromIndex")
    case True
    then have m: "nat (fromIndex - i) = Suc (nat (fromIndex - (i + 1)))" by simp
    show ?thesis using Cons.IH[OF sg, of "i + 1"] True
      by (subst indexOf_skip.simps) (simp add: nx m del: nat_diff_distrib)
  next
    case False
    then show ?thesis by (subst indexOf_skip.simps) simp
  qed
qed

lemma indexOf_scan_seg:
  "seg (node_heap s) p ys None \<Longrightarrow>
   indexOf_scan s x (hd_opt ys) i =
     Some (if x \<in> set (vals s ys) then i + int (length (takeWhile (\<lambda>v. v \<noteq> x) (vals s ys))) else - 1)"
proof (induction ys arbitrary: p i)
  case Nil
  then show ?case by (subst indexOf_scan.simps) (simp add: vals_def)
next
  case (Cons y ys)
  have nx: "NEXT (node_heap s y) = hd_opt ys" using Cons.prems by (cases ys) simp_all
  have sg: "seg (node_heap s) (Some y) ys None" using Cons.prems by simp
  show ?case using Cons.IH[OF sg, of "i + 1"]
    by (subst indexOf_scan.simps) (auto simp: nx vals_def)
qed

lemma seg_drop: "seg h p ys q \<Longrightarrow> \<exists>p'. seg h p' (drop m ys) q"
proof (induction m arbitrary: p ys)
  case 0 then show ?case by auto
next
  case (Suc m)
  then show ?case by (cases ys) auto
qed

lemma indexOf_inv:
  assumes "store_inv s cf"
  shows "indexOf s l x fromIndex =
           Some (let rest = drop (nat fromIndex) (vals s (cf l))
                 in if x \<in> set rest
                    then int (min (nat fromIndex) (length (cf l))) + int (length (takeWhile (\<lambda>v. v \<noteq> x) rest))
                    else - 1)"
proof -
  note cl = chainD[OF store_invD(1)[OF assms, of l]]
  let ?m = "min (nat fromIndex) (length (cf l))"
  have f: "firstNode (list_heap s l) = hd_opt (cf l)" using cl(3) by (simp add: hd_opt_def)
  have 1: "indexOf_skip s fromIndex (firstNode (list_heap s l)) 0 = Some (hd_opt (drop ?m (cf l)), int ?m)"
    using indexOf_skip_seg[OF cl(6), of fromIndex 0] f by simp
  from seg_drop[OF cl(6), of ?m] obtain p' where sg: "seg (node_heap s) p' (drop ?m (cf l)) None" by blast
  have d: "drop ?m (vals s (cf l)) = drop (nat fromIndex) (vals s (cf l))"
    by (simp add: min_def)
  show ?thesis using 1 indexOf_scan_seg[OF sg, of x "int ?m"] d
    by (simp add: indexOf_def Let_def vals_drop)
qed


lemma indexOf_skip_nonpositive:
  "fromIndex \<le> 0 \<Longrightarrow> indexOf_skip s fromIndex cursor 0 = Some (cursor, 0)"
  by (subst indexOf_skip.simps) (simp split: option.splits)

subsection \<open>The iterating operations on a well-formed store\<close>

lemma find_loop_seg:
  "seg (node_heap s) p ys None \<Longrightarrow>
   find_loop s P this (hd_opt ys) i =
     Some (map_option fst (List.find snd (zip (vals s ys) (called_with P this (vals s ys) i))))"
proof (induction ys arbitrary: p i)
  case Nil
  then show ?case by (subst find_loop.simps) (simp add: vals_def)
next
  case (Cons y ys)
  have nx: "NEXT (node_heap s y) = hd_opt ys" using Cons.prems by (cases ys) simp_all
  have sg: "seg (node_heap s) (Some y) ys None" using Cons.prems by simp
  show ?case using Cons.IH[OF sg, of "i + 1"]
    by (subst find_loop.simps) (auto simp: nx vals_def)
qed

lemma find_inv:
  assumes "store_inv s cf"
  shows "find_dll s l P =
           Some (map_option fst (List.find snd (zip (vals s (cf l)) (called_with P l (vals s (cf l)) 0))))"
proof -
  note cl = chainD[OF store_invD(1)[OF assms, of l]]
  have f: "firstNode (list_heap s l) = hd_opt (cf l)" using cl(3) by (simp add: hd_opt_def)
  show ?thesis using find_loop_seg[OF cl(6), of P l 0] f by (simp add: find_dll_def)
qed

lemma forEach_loop_seg:
  "seg (node_heap s) p ys None \<Longrightarrow>
   forEach_loop s f this (hd_opt ys) i u = Some (fold (\<lambda>g. g) (called_with f this (vals s ys) i) u)"
proof (induction ys arbitrary: p i u)
  case Nil
  then show ?case by (subst forEach_loop.simps) (simp add: vals_def)
next
  case (Cons y ys)
  have nx: "NEXT (node_heap s y) = hd_opt ys" using Cons.prems by (cases ys) simp_all
  have sg: "seg (node_heap s) (Some y) ys None" using Cons.prems by simp
  show ?case using Cons.IH[OF sg, of "i + 1"]
    by (subst forEach_loop.simps) (auto simp: nx vals_def)
qed

lemma forEach_inv:
  assumes "store_inv s cf"
  shows "forEach s l f u = Some (fold (\<lambda>g. g) (called_with f l (vals s (cf l)) 0) u)"
proof -
  note cl = chainD[OF store_invD(1)[OF assms, of l]]
  have f: "firstNode (list_heap s l) = hd_opt (cf l)" using cl(3) by (simp add: hd_opt_def)
  show ?thesis using forEach_loop_seg[OF cl(6), of f l 0 u] f by (simp add: forEach_def)
qed

lemma map_loop_inv:
  assumes "store_inv s cf" and "cf this = xs @ ys" and "result < list_count s" and "result \<noteq> this"
  shows "map_loop s f this result (hd_opt ys) i
           = Some (append_items s result (called_with f this (vals s ys) i))"
  using assms
proof (induction ys arbitrary: s cf xs i)
  case Nil
  then show ?case by (subst map_loop.simps) (simp add: vals_def)
next
  case (Cons y ys)
  let ?n = "node_count s"
  let ?v = "f (VALUE (node_heap s y)) i this"
  let ?cf = "cf(result := cf result @ [?n])"
  from append_inv[OF Cons.prems(1,3), of ?v] obtain s1 where
    r1: "append_dll s result ?v = Inr (?n, s1)" and inv1: "store_inv s1 ?cf"
    and nc: "node_count s1 = Suc ?n" and lc: "list_count s1 = list_count s"
    and vs: "\<forall>a. VALUE (node_heap s1 a) = (if a = ?n then ?v else VALUE (node_heap s a))"
    by blast
  have e: "ext s s1" by (rule append_ext[OF nc lc vs])
  have cft: "?cf this = (xs @ [y]) @ ys" using Cons.prems(2,4) by simp
  have sg: "seg (node_heap s1) None (xs @ y # ys) None"
    using chainD(6)[OF store_invD(1)[OF inv1, of this]] Cons.prems(2,4) by simp
  have nx: "NEXT (node_heap s1 y) = hd_opt ys" using seg_mid(2)[OF sg] by (simp add: hd_opt_def)
  have ve: "vals s1 ys = vals s ys"
    by (rule vals_ext[OF Cons.prems(1) e, of _ this]) (auto simp: Cons.prems(2))
  have rl: "result < list_count s1" using lc Cons.prems(3) by simp
  have ih: "map_loop s1 f this result (hd_opt ys) (i + 1)
           = Some (append_items s1 result (called_with f this (vals s1 ys) (i + 1)))"
    by (rule Cons.IH[OF inv1 cft rl Cons.prems(4)])
  have vc: "vals s (y # ys) = VALUE (node_heap s y) # vals s ys" by (simp add: vals_def)
  show ?case
    by (subst map_loop.simps) (simp add: r1 nx ih ve vc)
qed

lemma map_inv:
  assumes inv: "store_inv s cf" and l: "this < list_count s"
  shows "map_dll s this f = Some (constructor s (called_with f this (vals s (cf this)) 0))"
proof -
  let ?r = "list_count s"
  define s1 where "s1 = snd (new_list s)"
  note nl = new_list_inv[OF inv, folded s1_def]
  have nl': "new_list s = (?r, s1)" using nl(3) by (simp add: prod_eq_iff s1_def)
  have ne: "?r \<noteq> this" using l by simp
  have rl: "?r < list_count s1" using nl(7) by simp
  have f: "firstNode (list_heap s1 this) = hd_opt (cf this)"
    using chainD(3)[OF store_invD(1)[OF nl(1), of this]] by (simp add: hd_opt_def)
  have v: "vals s1 (cf this) = vals s (cf this)" using nl(4) by (simp add: vals_def)
  have 1: "map_loop s1 f this ?r (hd_opt (cf this)) 0
           = Some (append_items s1 ?r (called_with f this (vals s (cf this)) 0))"
    using map_loop_inv[OF nl(1) _ rl ne, of "[]" "cf this" f 0] v by simp
  have 2: "append_items s1 ?r [] = Inr s1" by simp
  show ?thesis
    by (cases "called_with f this (vals s (cf this)) 0")
       (simp_all add: map_dll_def constructor_def nl' f 1 split: sum.splits)
qed

lemma map_reachable:
  assumes "reachable s" and "this < list_count s"
  shows "\<exists>result s'. map_dll s this f = Some (Inr (result, s')) \<and> reachable s'"
proof -
  from reachable_inv[OF assms(1)] obtain cf where inv: "store_inv s cf" by blast
  from assms obtain d cs where run: "run (new_store d) cs = Some (Inr s)"
    unfolding reachable_def by blast
  let ?items = "called_with f this (vals s (cf this)) 0"
  from constructor_inv[OF inv, of ?items] obtain s' where
    r: "constructor s ?items = Inr (list_count s, s')" by blast
  have "run (new_store d) (cs @ [New ?items]) = Some (Inr s')"
    using run r by (simp add: run_append)
  then have "reachable s'" unfolding reachable_def by blast
  then show ?thesis using map_inv[OF inv assms(2), of f] r by simp
qed


subsection \<open>The class-based revision\<close>

lemma indexOf_skip_c_nonpositive:
  "fromIndex \<le> 0 \<Longrightarrow> indexOf_skip_c s fromIndex cursor 0 = Some (cursor, 0)"
  by (subst indexOf_skip_c.simps) (simp split: option.splits)

lemma indexOf_c_negative:
  "fromIndex < 0 \<Longrightarrow>
     indexOf_c c this searchElement fromIndex = indexOf_c c this searchElement 0 \<and>
     includes_c c this searchElement fromIndex = includes_c c this searchElement 0"
  by (simp add: indexOf_c_def includes_c_def indexOf_skip_c_nonpositive)

lemma remove_c_foreign:
  "list_c (node_heap_c c node) \<noteq> Some this \<Longrightarrow> remove_c c this node = Inr (False, c)"
  by (simp add: remove_c_def)

lemma remove_c_clears_owner:
  assumes "remove_c c this node = Inr (True, c1)"
  shows "list_c (node_heap_c c1 node) = None"
  using assms
  by (auto simp: remove_c_def set_node_def set_list_def Let_def
      split: if_splits sum.splits option.splits)

lemma remove_c_twice:
  assumes "remove_c c this node = Inr (True, c1)"
  shows "list_c (node_heap_c c1 node) = None \<and> remove_c c1 this node = Inr (False, c1)"
  using remove_c_clears_owner[OF assms] by (simp add: remove_c_foreign)

lemma splice_c_foreign:
  assumes "list_c (node_heap_c c node) \<noteq> Some this" and "this < list_count_c c"
  shows "\<exists>removed c'. splice_c c this (Node node) deleteCount items = Inr (removed, c') \<and>
           node_heap_c c' = node_heap_c c \<and> list_heap_c c' this = list_heap_c c this \<and>
           removed = list_count_c c \<and> firstNode_c (list_heap_c c' removed) = None \<and>
           length_c (list_heap_c c' removed) = 0"
  using assms by (simp add: splice_c_def splice_startNode_c_def new_list_c_def)

lemma splice_c_zero:
  assumes "this < list_count_c c"
  shows "\<exists>removed c'. splice_c c this (Index i) 0 [] = Inr (removed, c') \<and>
           node_heap_c c' = node_heap_c c \<and> list_heap_c c' this = list_heap_c c this \<and>
           removed = list_count_c c \<and> firstNode_c (list_heap_c c' removed) = None \<and>
           length_c (list_heap_c c' removed) = 0"
  using assms by (simp add: splice_c_def splice_startNode_c_def new_list_c_def Let_def)

subsection \<open>The example stores\<close>

lemma reachable_two_lists: "reachable two_lists"
  unfolding two_lists_def by (rule reachable_after)

lemma two_lists_counts: "list_count two_lists = 2" "node_count two_lists = 6"
  by (simp_all add: two_lists_def model_defs)

lemma two_lists_c_eval:
  "list_count_c two_lists_c = 2 \<and> node_count_c two_lists_c = 6 \<and>
  map (\<lambda>a. value_c (node_heap_c two_lists_c a)) [0, 1, 2, 3, 4, 5] = [10, 20, 30, 40, 7, 8] \<and>
  map (\<lambda>a. list_c (node_heap_c two_lists_c a)) [0, 1, 2, 3, 4, 5] = [Some 0, Some 0, Some 0, Some 0, Some 1, Some 1] \<and>
  map (\<lambda>a. nextNode (node_heap_c two_lists_c a)) [0, 1, 2, 3, 4, 5] = [Some 1, Some 2, Some 3, None, Some 5, None] \<and>
  map (\<lambda>a. previousNode (node_heap_c two_lists_c a)) [0, 1, 2, 3, 4, 5] = [None, Some 0, Some 1, Some 2, None, Some 4] \<and>
  firstNode_c (list_heap_c two_lists_c 0) = Some 0 \<and> lastNode_c (list_heap_c two_lists_c 0) = Some 3 \<and>
  length_c (list_heap_c two_lists_c 0) = 4 \<and> indexOf_c two_lists_c 0 30 (- 2) = Some 2"
  by (simp add: two_lists_c_def model_c_defs)

lemma two_lists_c_splice:
  "case splice_c two_lists_c 0 (Index 1) 2 [5, 6, 7] of Inl e \<Rightarrow> False | Inr (r, s) \<Rightarrow>
   map (\<lambda>i. map_option (\<lambda>a. value_c (node_heap_c s a)) (getNodeAt_c s 0 i)) [0, 1, 2, 3, 4, 5]
     = [Some 10, Some 5, Some 6, Some 7, Some 40, None] \<and>
   map (\<lambda>i. map_option (\<lambda>a. value_c (node_heap_c s a)) (getNodeAt_c s r i)) [0, 1, 2]
     = [Some 20, Some 30, None]"
  by (simp add: two_lists_c_def model_c_defs)

section \<open>The claims\<close>

text \<open>
  Every list of a running program is a list of a reachable store;  ``for every list'' is
  \<open>reachable s\<close> and \<open>this < list_count s\<close>.  The value sequence of a list is what
  \<^verbatim>\<open>toArray\<close> returns: \<open>Some (Inr (map Some xs))\<close> is the array \<open>xs\<close>, without holes.
\<close>

text \<open>
  C1.  \<^verbatim>\<open>splice(start, deleteCount)\<close> with a numeric \<^verbatim>\<open>start\<close> and no items:
  the start is clamped to \<open>p\<close> in \<open>[0, length]\<close>; exactly
  \<open>k = min (max deleteCount 0) (length - p)\<close> consecutive values from position \<open>p\<close> on are
  removed; they are returned, in their order, as a new list; the list keeps the other
  values in their order.
\<close>

theorem splice_delete_by_index:
  assumes "reachable s" and "this < list_count s"
  shows "\<exists>xs removed s'.
           toArray s this = Some (Inr (map Some xs)) \<and> getLength s this = int (length xs) \<and>
           splice_dll s this (Index start) deleteCount [] = Inr (removed, s') \<and>
           removed = list_count s \<and>
           (let p = clampedStart (int (length xs)) start;
                k = removedCount (int (length xs)) start deleteCount
            in 0 \<le> p \<and> p \<le> int (length xs) \<and> 0 \<le> k \<and> p + k \<le> int (length xs) \<and>
               toArray s' removed = Some (Inr (map Some (take (nat k) (drop (nat p) xs)))) \<and>
               toArray s' this = Some (Inr (map Some (take (nat p) xs @ drop (nat p + nat k) xs))))"
proof -
  from reachable_inv[OF assms(1)] obtain cf where inv: "store_inv s cf" by blast
  note cl = chainD[OF store_invD(1)[OF inv, of this]]
  let ?as = "cf this"
  let ?xs = "vals s ?as"
  let ?n = "int (length ?xs)"
  let ?p = "clampedStart ?n start"
  let ?k = "removedCount ?n start deleteCount"
  have pr: "0 \<le> ?p" "?p \<le> ?n" using clampedStart_range[of ?n start] by simp_all
  have kr: "0 \<le> ?k" "?p + ?k \<le> ?n" using pr by (auto simp: removedCount_def)
  have as: "?as = take (nat ?p) ?as @ drop (nat ?p) ?as" by simp
  have st: "splice_startNode s this (Index start) = Some (hd_opt (drop (nat ?p) ?as))"
    using startNode_Index[OF inv, of this start] by (simp add: clampedStart_eq)
  from splice_at[OF inv assms(2) as st, of deleteCount "[]"] obtain s' where
    r: "splice_dll s this (Index start) deleteCount [] = Inr (list_count s, s')"
    and t: "toArray s' this =
              Some (Inr (map Some (vals s (take (nat ?p) ?as) @ [] @ vals s (drop (nat deleteCount) (drop (nat ?p) ?as)))))"
    and tr: "toArray s' (list_count s) = Some (Inr (map Some (vals s (take (nat deleteCount) (drop (nat ?p) ?as)))))"
    by blast
  have k: "nat ?k = min (nat deleteCount) (length (drop (nat ?p) ?xs))"
    using pr by (auto simp: removedCount_def)
  have 1: "take (nat deleteCount) (drop (nat ?p) ?xs) = take (nat ?k) (drop (nat ?p) ?xs)"
    unfolding k by (simp add: min_def)
  have 2: "drop (nat deleteCount) (drop (nat ?p) ?xs) = drop (nat ?p + nat ?k) ?xs"
    unfolding k by (auto simp: min_def add.commute)
  have t': "toArray s' this = Some (Inr (map Some (take (nat ?p) ?xs @ drop (nat ?p + nat ?k) ?xs)))"
    using t 2 by (simp add: vals_take vals_drop)
  have tr': "toArray s' (list_count s) = Some (Inr (map Some (take (nat ?k) (drop (nat ?p) ?xs))))"
    using tr 1 by (simp add: vals_take vals_drop)
  have 0: "toArray s this = Some (Inr (map Some ?xs))" by (rule toArray_inv[OF inv])
  have len: "getLength s this = ?n" using cl(5) by (simp add: getLength_def)
  show ?thesis
    apply (rule exI[of _ ?xs], rule exI[of _ "list_count s"], rule exI[of _ s'])
    unfolding Let_def using 0 len r pr kr t' tr' by simp
qed

text \<open>On \<open>[10, 20, 30, 40]\<close> the call \<^verbatim>\<open>splice(1, 2)\<close> leaves \<open>[10, 40]\<close> and returns \<open>[20, 30]\<close>.\<close>

theorem splice_delete_by_index_witness:
  "reachable two_lists \<and> 0 < list_count two_lists \<and>
   (\<exists>xs removed s'.
           toArray two_lists 0 = Some (Inr (map Some xs)) \<and> getLength two_lists 0 = int (length xs) \<and>
           splice_dll two_lists 0 (Index 1) 2 [] = Inr (removed, s') \<and>
           removed = list_count two_lists \<and>
           (let p = clampedStart (int (length xs)) 1;
                k = removedCount (int (length xs)) 1 2
            in 0 \<le> p \<and> p \<le> int (length xs) \<and> 0 \<le> k \<and> p + k \<le> int (length xs) \<and>
               toArray s' removed = Some (Inr (map Some (take (nat k) (drop (nat p) xs)))) \<and>
               toArray s' 0 = Some (Inr (map Some (take (nat p) xs @ drop (nat p + nat k) xs))))) \<and>
   (case splice_dll two_lists 0 (Index 1) 2 [] of
      Inl e \<Rightarrow> False
    | Inr (removed, s') \<Rightarrow>
        toArray s' 0 = Some (Inr [Some 10, Some 40]) \<and>
        toArray s' removed = Some (Inr [Some 20, Some 30]))"
proof -
  have l: "0 < list_count two_lists" by (simp add: two_lists_counts)
  have e: "case splice_dll two_lists 0 (Index 1) 2 [] of
      Inl e \<Rightarrow> False
    | Inr (removed, s') \<Rightarrow>
        toArray s' 0 = Some (Inr [Some 10, Some 40]) \<and>
        toArray s' removed = Some (Inr [Some 20, Some 30])"
    by (simp add: two_lists_def model_defs)
  show ?thesis
    using reachable_two_lists l e splice_delete_by_index [OF reachable_two_lists l, of 1 2]
    by blast
qed

text \<open>
  C2.  \<^verbatim>\<open>splice(start, deleteCount, ...items)\<close> with at least one item, where
  \<^verbatim>\<open>start\<close> is an index, \<^verbatim>\<open>undefined\<close> or a node of this list.  With
  \<open>p\<close> the position \<^verbatim>\<open>start\<close> denotes and \<open>k\<close> the number of deleted values,
  the list becomes the prefix before the deleted span, then the items in their order,
  then the suffix after the span.  The node right after the inserted run is the node
  that followed the deleted span (there is none exactly when there was none, and then the
  items are at the tail).  The claim as it is stated, for every \<^verbatim>\<open>start\<close>, fails for
  a node of another list: the guard of the preparation phase returns before anything is
  inserted (C3).
\<close>

theorem splice_insert_items:
  assumes "reachable s" and "this < list_count s" and "items \<noteq> []"
    and "owned_start s this start"
  shows "\<exists>xs p removed s'.
           toArray s this = Some (Inr (map Some xs)) \<and>
           splice_position s this start (int p) \<and> p \<le> length xs \<and>
           splice_dll s this start deleteCount items = Inr (removed, s') \<and>
           (let k = min (nat deleteCount) (length xs - p)
            in toArray s' this = Some (Inr (map Some (take p xs @ items @ drop (p + k) xs))) \<and>
               toArray s' removed = Some (Inr (map Some (take k (drop p xs)))) \<and>
               getNodeAt s' this (int (p + length items)) = getNodeAt s this (int (p + k)))"
proof -
  from reachable_inv[OF assms(1)] obtain cf where inv: "store_inv s cf" by blast
  note cl = chainD[OF store_invD(1)[OF inv, of this]]
  let ?as = "cf this"
  let ?xs = "vals s ?as"
  have len: "getLength s this = int (length ?as)" using cl(5) by (simp add: getLength_def)
  have 0: "toArray s this = Some (Inr (map Some ?xs))" by (rule toArray_inv[OF inv])
  have "\<exists>p. p \<le> length ?as \<and> splice_position s this start (int p) \<and>
             splice_startNode s this start = Some (hd_opt (drop p ?as))"
  proof (cases start)
    case (Index i)
    let ?p = "clampedStart (int (length ?as)) i"
    have pr: "0 \<le> ?p" "?p \<le> int (length ?as)" using clampedStart_range[of "int (length ?as)" i] by simp_all
    have "splice_startNode s this (Index i) = Some (hd_opt (drop (nat ?p) ?as))"
      using startNode_Index[OF inv, of this i] by (simp add: clampedStart_eq)
    then show ?thesis using pr Index len by (intro exI[of _ "nat ?p"]) simp
  next
    case (Node n)
    then have "n \<in> set ?as" using assms(4) cl(2)[of n] by simp
    then obtain as0 ys where as: "?as = as0 @ n # ys" by (meson split_list)
    have g: "getNodeAt s this (int (length as0)) = Some n"
      using getNodeAt_inv[OF inv, of this "int (length as0)"] as by (simp add: Let_def)
    show ?thesis using startNode_Node[OF inv as] g len as Node
      by (intro exI[of _ "length as0"]) simp
  next
    case Undefined
    then show ?thesis using startNode_Undefined[of s this] len
      by (intro exI[of _ "length ?as"]) simp
  qed
  then obtain p where p: "p \<le> length ?as" and pos: "splice_position s this start (int p)"
    and st: "splice_startNode s this start = Some (hd_opt (drop p ?as))" by blast
  define k where "k = min (nat deleteCount) (length ?xs - p)"
  have as: "?as = take p ?as @ drop p ?as" by simp
  from splice_at[OF inv assms(2) as st, of deleteCount items] obtain s' where
    r: "splice_dll s this start deleteCount items = Inr (list_count s, s')"
    and t: "toArray s' this =
              Some (Inr (map Some (vals s (take p ?as) @ items @ vals s (drop (nat deleteCount) (drop p ?as)))))"
    and tr: "toArray s' (list_count s) = Some (Inr (map Some (vals s (take (nat deleteCount) (drop p ?as)))))"
    and g: "\<forall>j<length (drop (nat deleteCount) (drop p ?as)).
              getNodeAt s' this (int (length (take p ?as) + length items + j))
                = Some (drop (nat deleteCount) (drop p ?as) ! j)"
    and inv': "\<exists>cf'. store_inv s' cf' \<and> length (cf' this) = length (take p ?as) + length items + length (drop (nat deleteCount) (drop p ?as))"
    by blast
  have 1: "take (nat deleteCount) (drop p ?xs) = take k (drop p ?xs)"
    by (simp add: min_def k_def)
  have 2: "drop (nat deleteCount) (drop p ?xs) = drop (p + k) ?xs"
    using p by (auto simp: min_def add.commute k_def)
  have d2: "drop (nat deleteCount) (drop p ?as) = drop (p + k) ?as"
    using p by (auto simp: min_def add.commute k_def)
  have t': "toArray s' this = Some (Inr (map Some (take p ?xs @ items @ drop (p + k) ?xs)))"
    using t 2 by (simp add: vals_take vals_drop)
  have tr': "toArray s' (list_count s) = Some (Inr (map Some (take k (drop p ?xs))))"
    using tr 1 by (simp add: vals_take vals_drop)
  have f1: "getNodeAt s this (int (p + k)) \<noteq> None \<and>
            getNodeAt s' this (int (p + length items)) = getNodeAt s this (int (p + k))"
    if lt: "p + k < length ?xs"
  proof -
    have a: "getNodeAt s this (int (p + k)) = Some (?as ! (p + k))"
      using getNodeAt_inv[OF inv, of this "int (p + k)"] lt
      by (simp add: Let_def del: of_nat_add)
    have "0 < length (drop (nat deleteCount) (drop p ?as))" unfolding d2 using lt by simp
    then have "getNodeAt s' this (int (length (take p ?as) + length items + 0))
                = Some (drop (nat deleteCount) (drop p ?as) ! 0)" using g by blast
    then have "getNodeAt s' this (int (p + length items)) = Some (?as ! (p + k))"
      unfolding d2 using p lt by simp
    then show ?thesis using a by simp
  qed
  have f2: "getNodeAt s' this (int (p + length items)) = None" if eq: "p + k = length ?xs"
  proof -
    from inv' obtain cf' where i': "store_inv s' cf'"
      and l': "length (cf' this) = length (take p ?as) + length items + length (drop (nat deleteCount) (drop p ?as))"
      by blast
    have "length (cf' this) = p + length items" unfolding l' d2 using p eq by simp
    then show ?thesis using getNodeAt_inv[OF i', of this "int (p + length items)"]
      by (simp add: Let_def del: of_nat_add)
  qed
  have pk: "p + k \<le> length ?xs" using p by (simp add: k_def)
  have f3: "getNodeAt s' this (int (p + length items)) = getNodeAt s this (int (p + k))"
  proof (cases "p + k < length ?xs")
    case True
    then show ?thesis using f1 by simp
  next
    case False
    then have eq: "p + k = length ?xs" using pk by simp
    have "getNodeAt s this (int (p + k)) = None"
      using getNodeAt_inv[OF inv, of this "int (p + k)"] eq by (simp add: Let_def del: of_nat_add)
    then show ?thesis using f2[OF eq] by simp
  qed
  show ?thesis
    apply (rule exI[of _ ?xs], rule exI[of _ p], rule exI[of _ "list_count s"], rule exI[of _ s'])
    unfolding Let_def k_def[symmetric] using 0 pos p r t' tr' f3 by simp
qed

text \<open>On \<open>[1, 4]\<close> the call \<^verbatim>\<open>splice(list.getTail(), 0, 2, 3)\<close> gives \<open>[1, 2, 3, 4]\<close>; the tail node follows the inserted run.\<close>

theorem splice_insert_items_witness:
  "reachable head_and_tail \<and> 0 < list_count head_and_tail \<and> [2, 3] \<noteq> ([] :: int list) \<and>
   owned_start head_and_tail 0 (Node 1) \<and>
   (\<exists>xs p removed s'.
           toArray head_and_tail 0 = Some (Inr (map Some xs)) \<and>
           splice_position head_and_tail 0 (Node 1) (int p) \<and> p \<le> length xs \<and>
           splice_dll head_and_tail 0 (Node 1) 0 [2, 3] = Inr (removed, s') \<and>
           (let k = min (nat 0) (length xs - p)
            in toArray s' 0 = Some (Inr (map Some (take p xs @ [2, 3] @ drop (p + k) xs))) \<and>
               toArray s' removed = Some (Inr (map Some (take k (drop p xs)))) \<and>
               getNodeAt s' 0 (int (p + length [2, 3 :: int])) = getNodeAt head_and_tail 0 (int (p + k)))) \<and>
   (case splice_dll head_and_tail 0 (Node 1) 0 [2, 3] of
      Inl e \<Rightarrow> False
    | Inr (removed, s') \<Rightarrow>
        toArray s' 0 = Some (Inr [Some 1, Some 2, Some 3, Some 4]) \<and>
        toArray s' removed = Some (Inr []) \<and> getNodeAt s' 0 3 = Some 1)"
proof -
  have r: "reachable head_and_tail" unfolding head_and_tail_def by (rule reachable_after)
  have l: "0 < list_count head_and_tail" by (simp add: head_and_tail_def model_defs)
  have i: "[2, 3] \<noteq> ([] :: int list)" by simp
  have n: "owned_start head_and_tail 0 (Node 1)"
    by (simp add: head_and_tail_def model_defs)
  have e: "case splice_dll head_and_tail 0 (Node 1) 0 [2, 3] of
      Inl e \<Rightarrow> False
    | Inr (removed, s') \<Rightarrow>
        toArray s' 0 = Some (Inr [Some 1, Some 2, Some 3, Some 4]) \<and>
        toArray s' removed = Some (Inr []) \<and> getNodeAt s' 0 3 = Some 1"
    by (simp add: head_and_tail_def model_defs)
  show ?thesis
    using r l i n e splice_insert_items [OF r l i n, of 0]
    by blast
qed

text \<open>
  The head of the second list as \<^verbatim>\<open>start\<close> of a \<^verbatim>\<open>splice\<close> of the first
  list, with the item 99: the first list stays \<open>[10, 20, 30, 40]\<close>, the item is not in it.
\<close>

theorem splice_insert_items_counterexample:
  "\<not> owned_start two_lists 0 (Node 4) \<and> LIST (node_heap two_lists 4) = Some 1 \<and>
   toArray two_lists 0 = Some (Inr [Some 10, Some 20, Some 30, Some 40]) \<and>
   toArray (snd (projr (splice_dll two_lists 0 (Node 4) 0 [99]))) 0
     = Some (Inr [Some 10, Some 20, Some 30, Some 40]) \<and>
   Some 99 \<notin> set [Some 10, Some 20, Some 30, Some (40 :: int)]"
  by (simp add: two_lists_def model_defs)

text \<open>
  C3.  \<^verbatim>\<open>splice(n, deleteCount, ...items)\<close> with a node \<open>n\<close> whose owner is not this
  list (a node of another list, or a removed node): no node and no field of the list
  changes, whatever \<^verbatim>\<open>deleteCount\<close> and \<^verbatim>\<open>items\<close> are, and the returned list
  is a new, empty list.  This holds in both revisions.
\<close>

theorem splice_foreign_node:
  assumes "LIST (node_heap s node) \<noteq> Some this" and "this < list_count s"
    and "list_c (node_heap_c c node_c) \<noteq> Some this_c" and "this_c < list_count_c c"
  shows "(\<exists>removed s'. splice_dll s this (Node node) deleteCount items = Inr (removed, s') \<and>
           node_heap s' = node_heap s \<and> list_heap s' this = list_heap s this \<and>
           toArray s' this = toArray s this \<and>
           removed = list_count s \<and> toArray s' removed = Some (Inr []) \<and> getLength s' removed = 0) \<and>
         (\<exists>removed c'. splice_c c this_c (Node node_c) deleteCount items = Inr (removed, c') \<and>
           node_heap_c c' = node_heap_c c \<and> list_heap_c c' this_c = list_heap_c c this_c \<and>
           removed = list_count_c c \<and> firstNode_c (list_heap_c c' removed) = None \<and>
           length_c (list_heap_c c' removed) = 0)"
proof -
  let ?s' = "snd (new_list s)"
  have 1: "splice_dll s this (Node node) deleteCount items = Inr (list_count s, ?s')"
    using splice_foreign[OF assms(1), of deleteCount items] by (simp add: new_list_def)
  have 2: "node_heap ?s' = node_heap s" "list_heap ?s' this = list_heap s this"
    using assms(2) by (simp_all add: new_list_def)
  have 3: "toArray ?s' (list_count s) = Some (Inr [])"
    using toArray_new_list[of s] by (simp add: new_list_def)
  have 4: "getLength ?s' (list_count s) = 0" by (simp add: getLength_def new_list_def)
  show ?thesis using 1 2 3 4 toArray_frame[OF 2] splice_c_foreign[OF assms(3,4), of deleteCount items]
    by blast
qed

text \<open>
  The head of the second list, passed to \<^verbatim>\<open>splice\<close> of the first one with
  \<^verbatim>\<open>deleteCount = 1\<close> and an item.
\<close>

theorem splice_foreign_node_witness:
  "LIST (node_heap two_lists 4) \<noteq> Some 0 \<and> 0 < list_count two_lists \<and>
   list_c (node_heap_c two_lists_c 4) \<noteq> Some 0 \<and> 0 < list_count_c two_lists_c \<and>
   (\<exists>removed s'. splice_dll two_lists 0 (Node 4) 1 [99] = Inr (removed, s') \<and>
           node_heap s' = node_heap two_lists \<and> list_heap s' 0 = list_heap two_lists 0 \<and>
           toArray s' 0 = toArray two_lists 0 \<and>
           removed = list_count two_lists \<and> toArray s' removed = Some (Inr []) \<and> getLength s' removed = 0) \<and>
   (\<exists>removed c'. splice_c two_lists_c 0 (Node 4) 1 [99] = Inr (removed, c') \<and>
           node_heap_c c' = node_heap_c two_lists_c \<and> list_heap_c c' 0 = list_heap_c two_lists_c 0 \<and>
           removed = list_count_c two_lists_c \<and> firstNode_c (list_heap_c c' removed) = None \<and>
           length_c (list_heap_c c' removed) = 0) \<and>
   LIST (node_heap two_lists 4) = Some 1 \<and> list_c (node_heap_c two_lists_c 4) = Some 1 \<and>
   toArray two_lists 0 = Some (Inr [Some 10, Some 20, Some 30, Some 40])"
proof -
  have f: "LIST (node_heap two_lists 4) \<noteq> Some 0" by (simp add: two_lists_def model_defs)
  have l: "0 < list_count two_lists" by (simp add: two_lists_counts)
  have fc: "list_c (node_heap_c two_lists_c 4) \<noteq> Some 0" and lc: "0 < list_count_c two_lists_c"
    using two_lists_c_eval by simp_all
  have e: "LIST (node_heap two_lists 4) = Some 1 \<and> list_c (node_heap_c two_lists_c 4) = Some 1 \<and>
           toArray two_lists 0 = Some (Inr [Some 10, Some 20, Some 30, Some 40])"
    using two_lists_c_eval by (simp add: two_lists_def model_defs)
  show ?thesis
    using f l fc lc e splice_foreign_node [OF f l fc lc, of 1 "[99]"]
    by blast
qed

text \<open>
  C4.  After any sequence of operations (\<^verbatim>\<open>new\<close>, \<^verbatim>\<open>append\<close>,
  \<^verbatim>\<open>prepend\<close>, \<^verbatim>\<open>insertAfterNode\<close>, \<^verbatim>\<open>insertBeforeNode\<close>,
  \<^verbatim>\<open>remove\<close>, \<^verbatim>\<open>splice\<close>, \<^verbatim>\<open>clear\<close>, \<^verbatim>\<open>pop\<close>,
  \<^verbatim>\<open>shift\<close>, \<^verbatim>\<open>push\<close>, \<^verbatim>\<open>unshift\<close>) from the empty store, every list
  is well-formed.
\<close>

theorem wellFormed_invariant:
  assumes "run (new_store d) cs = Some (Inr s)"
  shows "wellFormed s l"
proof -
  have "reachable s" using assms unfolding reachable_def by blast
  from reachable_inv[OF this] obtain cf where "store_inv s cf" by blast
  then show ?thesis by (rule wellFormed_inv)
qed

text \<open>A program that calls every operation; its list 0 ends as \<open>[6, 7, 8, 2, 9, 5]\<close>, its list 1 is empty.\<close>

theorem wellFormed_invariant_witness:
  "run (new_store 0) all_operations = Some (Inr (after 0 all_operations)) \<and>
   wellFormed (after 0 all_operations) 0 \<and> wellFormed (after 0 all_operations) 1 \<and>
   toArray (after 0 all_operations) 0 = Some (Inr [Some 6, Some 7, Some 8, Some 2, Some 9, Some 5]) \<and>
   getLength (after 0 all_operations) 0 = 6 \<and>
   count_NEXT (after 0 all_operations) (getHead (after 0 all_operations) 0) 0 = Some 6 \<and>
   count_PREV (after 0 all_operations) (getTail (after 0 all_operations) 0) 0 = Some 6 \<and>
   getLength (after 0 all_operations) 1 = 0 \<and> getHead (after 0 all_operations) 1 = None"
proof -
  have r: "run (new_store 0) all_operations = Some (Inr (after 0 all_operations))"
    by (rule run_after)
  have e: "toArray (after 0 all_operations) 0 = Some (Inr [Some 6, Some 7, Some 8, Some 2, Some 9, Some 5]) \<and>
   getLength (after 0 all_operations) 0 = 6 \<and>
   count_NEXT (after 0 all_operations) (getHead (after 0 all_operations) 0) 0 = Some 6 \<and>
   count_PREV (after 0 all_operations) (getTail (after 0 all_operations) 0) 0 = Some 6 \<and>
   getLength (after 0 all_operations) 1 = 0 \<and> getHead (after 0 all_operations) 1 = None"
    by (simp add: all_operations_def model_defs)
  show ?thesis
    using r e wellFormed_invariant [OF r, of 0] wellFormed_invariant [OF r, of 1]
    by blast
qed

text \<open>
  C5.  \<^verbatim>\<open>getNodeAt(i)\<close> on a list of length \<open>n\<close>: with \<open>j\<close> the index \<open>i\<close>
  normalised (\<open>n + i\<close> for a negative \<open>i\<close>), the result is \<^verbatim>\<open>undefined\<close> exactly
  when \<open>j\<close> is outside \<open>[0, n)\<close>; otherwise it is the node reached from the head by
  following \<^verbatim>\<open>next\<close> \<open>j\<close> times, and the walk backwards from the tail,
  \<open>n - 1 - j\<close> times \<^verbatim>\<open>previous\<close>, reaches the same node.  \<^verbatim>\<open>get(i)\<close> is the
  value of that node.
\<close>

theorem getNodeAt_correct:
  assumes "reachable s"
  shows "let n = getLength s this; j = (if i < 0 then n + i else i)
         in (getNodeAt s this i = None \<longleftrightarrow> j < 0 \<or> n \<le> j) \<and>
            (0 \<le> j \<and> j < n \<longrightarrow>
               getNodeAt s this i = next_times s (nat j) (getHead s this) \<and>
               previous_times s (nat (n - 1 - j)) (getTail s this) = next_times s (nat j) (getHead s this)) \<and>
            get s this i = map_option (\<lambda>node. VALUE (node_heap s node)) (getNodeAt s this i)"
proof -
  from reachable_inv[OF assms] obtain cf where inv: "store_inv s cf" by blast
  note cl = chainD[OF store_invD(1)[OF inv, of this]]
  let ?n = "int (length (cf this))"
  let ?j = "if i < 0 then ?n + i else i"
  have len: "getLength s this = ?n" using cl(5) by (simp add: getLength_def)
  have f: "getHead s this = hd_opt (cf this)" using cl(3) by (simp add: hd_opt_def getHead_def)
  have g: "get s this i = map_option (\<lambda>node. VALUE (node_heap s node)) (getNodeAt s this i)"
    by (simp add: get_def split: option.splits)
  have a: "getNodeAt s this i = None \<longleftrightarrow> ?j < 0 \<or> ?n \<le> ?j"
    using getNodeAt_inv[OF inv, of this i] by (auto simp: Let_def)
  have b: "getNodeAt s this i = next_times s (nat ?j) (getHead s this) \<and>
           previous_times s (nat (?n - 1 - ?j)) (getTail s this) = next_times s (nat ?j) (getHead s this)"
    if r: "0 \<le> ?j \<and> ?j < ?n"
  proof -
    have ne: "cf this \<noteq> []" using r by auto
    have t: "getTail s this = hd_opt (rev (cf this))"
      using cl(4) ne by (cases "cf this" rule: rev_cases) (simp_all add: getTail_def)
    have jn: "nat ?j < length (cf this)" and kn: "nat (?n - 1 - ?j) < length (cf this)"
      using r by auto
    have e: "length (cf this) - 1 - nat (?n - 1 - ?j) = nat ?j" using r by auto
    have 1: "next_times s (nat ?j) (getHead s this) = Some (cf this ! nat ?j)"
      using fromHead_seg[OF cl(6) jn] by (simp add: fromHead_next_times f)
    have 2: "previous_times s (nat (?n - 1 - ?j)) (getTail s this) = Some (cf this ! nat ?j)"
      using fromTail_seg[OF cl(6) kn] e by (simp add: fromTail_previous_times t)
    have 3: "getNodeAt s this i = Some (cf this ! nat ?j)"
      using getNodeAt_inv[OF inv, of this i] r by (simp add: Let_def)
    show ?thesis using 1 2 3 by simp
  qed
  show ?thesis unfolding Let_def len using a b g by blast
qed

text \<open>\<^verbatim>\<open>getNodeAt(-1)\<close> on \<open>[10, 20, 30, 40]\<close> is the fourth node, found by one step backwards from the tail.\<close>

theorem getNodeAt_correct_witness:
  "reachable two_lists \<and>
   (let n = getLength two_lists 0; j = (if (- 1 :: int) < 0 then n + (- 1) else (- 1))
         in (getNodeAt two_lists 0 (- 1) = None \<longleftrightarrow> j < 0 \<or> n \<le> j) \<and>
            (0 \<le> j \<and> j < n \<longrightarrow>
               getNodeAt two_lists 0 (- 1) = next_times two_lists (nat j) (getHead two_lists 0) \<and>
               previous_times two_lists (nat (n - 1 - j)) (getTail two_lists 0) = next_times two_lists (nat j) (getHead two_lists 0)) \<and>
            get two_lists 0 (- 1) = map_option (\<lambda>node. VALUE (node_heap two_lists node)) (getNodeAt two_lists 0 (- 1))) \<and>
   getLength two_lists 0 = 4 \<and> getNodeAt two_lists 0 (- 1) = Some 3 \<and>
   next_times two_lists 3 (getHead two_lists 0) = Some 3 \<and>
   get two_lists 0 (- 1) = Some 40 \<and> getNodeAt two_lists 0 4 = None \<and> getNodeAt two_lists 0 (- 5) = None"
proof -
  have e: "getLength two_lists 0 = 4 \<and> getNodeAt two_lists 0 (- 1) = Some 3 \<and>
   next_times two_lists 3 (getHead two_lists 0) = Some 3 \<and>
   get two_lists 0 (- 1) = Some 40 \<and> getNodeAt two_lists 0 4 = None \<and> getNodeAt two_lists 0 (- 5) = None"
    by (simp add: two_lists_def model_defs)
  show ?thesis
    using reachable_two_lists e getNodeAt_correct [OF reachable_two_lists, of 0 "- 1"]
    by blast
qed

text \<open>
  C6.  \<^verbatim>\<open>remove(n)\<close> with a node whose owner is not this list returns
  \<^verbatim>\<open>false\<close> and leaves the store as it is.  Hence removing a node twice is safe:
  the first call returns \<^verbatim>\<open>true\<close> and clears the owner, the second one returns
  \<^verbatim>\<open>false\<close> and changes nothing.  The tuple-based revision compares the owner in
  the middle branch only, and relies on the head and the tail of a list being its own
  nodes; the class-based revision compares it first.
\<close>

theorem remove_foreign_node:
  assumes "reachable s"
  shows "(LIST (node_heap s foreign) \<noteq> Some this \<longrightarrow> remove_dll s this foreign = Inr (False, s)) \<and>
         (LIST (node_heap s node) = Some this \<longrightarrow>
            (\<exists>s1. remove_dll s this node = Inr (True, s1) \<and> LIST (node_heap s1 node) = None \<and>
                  remove_dll s1 this node = Inr (False, s1))) \<and>
         (list_c (node_heap_c c foreign_c) \<noteq> Some this_c \<longrightarrow>
            remove_c c this_c foreign_c = Inr (False, c)) \<and>
         (remove_c c this_c node_c = Inr (True, c1) \<longrightarrow>
            list_c (node_heap_c c1 node_c) = None \<and> remove_c c1 this_c node_c = Inr (False, c1))"
proof -
  from reachable_inv[OF assms] obtain cf where inv: "store_inv s cf" by blast
  have "\<exists>s1. remove_dll s this node = Inr (True, s1) \<and> LIST (node_heap s1 node) = None \<and>
                  remove_dll s1 this node = Inr (False, s1)"
    if own: "LIST (node_heap s node) = Some this"
  proof -
    from remove_inv[OF inv own] obtain s1 where
      r1: "remove_dll s this node = Inr (True, s1)"
      and inv1: "store_inv s1 (cf(this := remove1 node (cf this)))"
      and n1: "LIST (node_heap s1 node) = None" by blast
    have "remove_dll s1 this node = Inr (False, s1)"
      by (rule remove_foreign[OF inv1]) (simp add: n1)
    then show ?thesis using r1 n1 by blast
  qed
  then show ?thesis
    using remove_foreign[OF inv, of foreign this] remove_c_foreign[of c foreign_c this_c]
      remove_c_twice[of c this_c node_c c1]
    by blast
qed

text \<open>
  Removing a node of the second list from the first one, and removing the second node of
  the first list twice.
\<close>

theorem remove_foreign_node_witness:
  "reachable two_lists \<and>
   LIST (node_heap two_lists 4) \<noteq> Some 0 \<and> remove_dll two_lists 0 4 = Inr (False, two_lists) \<and>
   LIST (node_heap two_lists 1) = Some 0 \<and>
   (\<exists>s1. remove_dll two_lists 0 1 = Inr (True, s1) \<and> LIST (node_heap s1 1) = None \<and>
         remove_dll s1 0 1 = Inr (False, s1)) \<and>
   list_c (node_heap_c two_lists_c 4) \<noteq> Some 0 \<and> remove_c two_lists_c 0 4 = Inr (False, two_lists_c) \<and>
   remove_c two_lists_c 0 1 = Inr (True, snd (projr (remove_c two_lists_c 0 1))) \<and>
   list_c (node_heap_c (snd (projr (remove_c two_lists_c 0 1))) 1) = None \<and>
   remove_c (snd (projr (remove_c two_lists_c 0 1))) 0 1
     = Inr (False, snd (projr (remove_c two_lists_c 0 1)))"
proof -
  have f: "LIST (node_heap two_lists 4) \<noteq> Some 0" and o: "LIST (node_heap two_lists 1) = Some 0"
    by (simp_all add: two_lists_def model_defs)
  have fc: "list_c (node_heap_c two_lists_c 4) \<noteq> Some 0" using two_lists_c_eval by simp
  have oc: "remove_c two_lists_c 0 1 = Inr (True, snd (projr (remove_c two_lists_c 0 1)))"
    by (simp add: two_lists_c_def model_c_defs)
  show ?thesis
    using reachable_two_lists f o fc oc
      remove_foreign_node [OF reachable_two_lists, of 4 0 1 two_lists_c 4 0 1
        "snd (projr (remove_c two_lists_c 0 1))"]
    by blast
qed

text \<open>
  C7.  \<^verbatim>\<open>splice(i, 0)\<close> without items, for every integer \<open>i\<close>: no node and no
  field of the list changes, and the returned list is a new, empty list.  This holds in
  both revisions.
\<close>

theorem splice_zero_noop:
  assumes "this < list_count s" and "this_c < list_count_c c"
  shows "(\<exists>removed s'. splice_dll s this (Index i) 0 [] = Inr (removed, s') \<and>
           node_heap s' = node_heap s \<and> list_heap s' this = list_heap s this \<and>
           toArray s' this = toArray s this \<and>
           removed = list_count s \<and> toArray s' removed = Some (Inr []) \<and> getLength s' removed = 0) \<and>
         (\<exists>removed c'. splice_c c this_c (Index i) 0 [] = Inr (removed, c') \<and>
           node_heap_c c' = node_heap_c c \<and> list_heap_c c' this_c = list_heap_c c this_c \<and>
           removed = list_count_c c \<and> firstNode_c (list_heap_c c' removed) = None \<and>
           length_c (list_heap_c c' removed) = 0)"
proof -
  let ?s' = "snd (new_list s)"
  have 1: "splice_dll s this (Index i) 0 [] = Inr (list_count s, ?s')"
    by (simp add: splice_dll_def splice_startNode_def new_list_def Let_def)
  have 2: "node_heap ?s' = node_heap s" "list_heap ?s' this = list_heap s this"
    using assms(1) by (simp_all add: new_list_def)
  have 3: "toArray ?s' (list_count s) = Some (Inr [])"
    using toArray_new_list[of s] by (simp add: new_list_def)
  have 4: "getLength ?s' (list_count s) = 0" by (simp add: getLength_def new_list_def)
  show ?thesis using 1 2 3 4 toArray_frame[OF 2] splice_c_zero[OF assms(2), of i] by blast
qed

text \<open>\<^verbatim>\<open>splice(-7, 0)\<close> on a list of four elements.\<close>

theorem splice_zero_noop_witness:
  "0 < list_count two_lists \<and> 0 < list_count_c two_lists_c \<and>
   (\<exists>removed s'. splice_dll two_lists 0 (Index (- 7)) 0 [] = Inr (removed, s') \<and>
           node_heap s' = node_heap two_lists \<and> list_heap s' 0 = list_heap two_lists 0 \<and>
           toArray s' 0 = toArray two_lists 0 \<and>
           removed = list_count two_lists \<and> toArray s' removed = Some (Inr []) \<and> getLength s' removed = 0) \<and>
   (\<exists>removed c'. splice_c two_lists_c 0 (Index (- 7)) 0 [] = Inr (removed, c') \<and>
           node_heap_c c' = node_heap_c two_lists_c \<and> list_heap_c c' 0 = list_heap_c two_lists_c 0 \<and>
           removed = list_count_c two_lists_c \<and> firstNode_c (list_heap_c c' removed) = None \<and>
           length_c (list_heap_c c' removed) = 0)"
proof -
  have l: "0 < list_count two_lists" by (simp add: two_lists_counts)
  have lc: "0 < list_count_c two_lists_c" using two_lists_c_eval by simp
  show ?thesis
    using l lc splice_zero_noop [OF l lc, of "- 7"]
    by blast
qed

text \<open>
  C8.  No operation raises an exception, and every operation returns, in every store a
  program can reach: the mutating operations, \<^verbatim>\<open>toArray\<close>, \<^verbatim>\<open>indexOf\<close>,
  \<^verbatim>\<open>includes\<close>, \<^verbatim>\<open>find\<close>, \<^verbatim>\<open>forEach\<close> and \<^verbatim>\<open>map\<close> (the
  getters, \<^verbatim>\<open>get\<close>, \<^verbatim>\<open>getNodeAt\<close> and the iterator are total functions of
  the model).  In particular a node of the list that is neither its head nor its tail has
  both neighbours, so the dereferences \<^verbatim>\<open>prev![NEXT]\<close>, \<^verbatim>\<open>next![PREV]\<close>,
  \<^verbatim>\<open>node[NEXT]![PREV]\<close> and \<^verbatim>\<open>node[PREV]![NEXT]\<close> never meet
  \<^verbatim>\<open>undefined\<close>.
\<close>

theorem no_crash:
  assumes "reachable s"
  shows "(call_ok s c \<longrightarrow> (\<exists>s'. exec s c = Some (Inr s') \<and> reachable s')) \<and>
         (LIST (node_heap s node) = Some this \<and> getHead s this \<noteq> Some node \<and> getTail s this \<noteq> Some node
            \<longrightarrow> PREV (node_heap s node) \<noteq> None \<and> NEXT (node_heap s node) \<noteq> None) \<and>
         (\<exists>out. toArray s this = Some (Inr out)) \<and>
         (\<exists>r. indexOf s this x fromIndex = Some r) \<and>
         (\<exists>b. includes_dll s this x fromIndex = Some b) \<and>
         (\<exists>r. find_dll s this predicate = Some r) \<and>
         (\<exists>u'. forEach s this callback u = Some u') \<and>
         (this < list_count s \<longrightarrow>
            (\<exists>result s'. map_dll s this mapper = Some (Inr (result, s')) \<and> reachable s'))"
proof -
  from reachable_inv[OF assms] obtain cf where inv: "store_inv s cf" by blast
  from assms obtain d cs where run: "run (new_store d) cs = Some (Inr s)"
    unfolding reachable_def by blast
  note cl = chainD[OF store_invD(1)[OF inv, of this]]
  have 1: "\<exists>s'. exec s c = Some (Inr s') \<and> reachable s'" if ok: "call_ok s c"
  proof -
    from exec_inv[OF inv ok] obtain s' where e: "exec s c = Some (Inr s')" by blast
    have "run (new_store d) (cs @ [c]) = Some (Inr s')"
      using run e ok by (simp add: run_append)
    then show ?thesis using e unfolding reachable_def by blast
  qed
  have 2: "PREV (node_heap s node) \<noteq> None \<and> NEXT (node_heap s node) \<noteq> None"
    if own: "LIST (node_heap s node) = Some this"
      and h: "getHead s this \<noteq> Some node" and t: "getTail s this \<noteq> Some node"
  proof -
    from own have "node \<in> set (cf this)" using cl(2)[of node] by simp
    then obtain xs ys where as: "cf this = xs @ node # ys" by (meson split_list)
    have "xs \<noteq> []" using h cl(3) as by (cases xs) (auto simp: getHead_def)
    moreover have "ys \<noteq> []" using t cl(4) as by (auto simp: getTail_def)
    moreover have sg: "seg (node_heap s) None (xs @ node # ys) None" using cl(6) as by simp
    ultimately show ?thesis using seg_mid[OF sg] by (cases ys) auto
  qed
  have 3: "\<exists>out. toArray s this = Some (Inr out)" using toArray_inv[OF inv, of this] by blast
  have 4: "\<exists>r. indexOf s this x fromIndex = Some r" using indexOf_inv[OF inv, of this x fromIndex] by blast
  then have 5: "\<exists>b. includes_dll s this x fromIndex = Some b" by (auto simp: includes_dll_def)
  have 6: "\<exists>r. find_dll s this predicate = Some r" using find_inv[OF inv, of this predicate] by blast
  have 7: "\<exists>u'. forEach s this callback u = Some u'" using forEach_inv[OF inv, of this callback u] by blast
  have 8: "\<exists>result s'. map_dll s this mapper = Some (Inr (result, s')) \<and> reachable s'"
    if "this < list_count s" using map_reachable[OF assms that, of mapper] .
  show ?thesis using 1 2 3 4 5 6 7 8 by blast
qed

text \<open>
  Removing the second of four nodes, a middle node: both its neighbours exist.  The
  iterating operations on the list \<open>[10, 20, 30, 40]\<close>.
\<close>

theorem no_crash_witness:
  "reachable two_lists \<and> call_ok two_lists (Remove 0 1) \<and>
   (\<exists>s'. exec two_lists (Remove 0 1) = Some (Inr s') \<and> reachable s') \<and>
   LIST (node_heap two_lists 1) = Some 0 \<and> getHead two_lists 0 \<noteq> Some 1 \<and> getTail two_lists 0 \<noteq> Some 1 \<and>
   PREV (node_heap two_lists 1) \<noteq> None \<and> NEXT (node_heap two_lists 1) \<noteq> None \<and>
   (\<exists>out. toArray two_lists 0 = Some (Inr out)) \<and>
   (\<exists>r. indexOf two_lists 0 30 1 = Some r) \<and>
   (\<exists>b. includes_dll two_lists 0 30 1 = Some b) \<and>
   (\<exists>r. find_dll two_lists 0 (\<lambda>v i l. 15 < v) = Some r) \<and>
   (\<exists>u'. forEach two_lists 0 (\<lambda>v i l u. u + v * i) 0 = Some u') \<and>
   0 < list_count two_lists \<and>
   (\<exists>result s'. map_dll two_lists 0 (\<lambda>v i l. v + i) = Some (Inr (result, s')) \<and> reachable s') \<and>
   find_dll two_lists 0 (\<lambda>v i l. 15 < v) = Some (Some 20) \<and>
   forEach two_lists 0 (\<lambda>v i l u. u + v * i) 0 = Some 200 \<and>
   (case map_dll two_lists 0 (\<lambda>v i l. v + i) of
      Some (Inr (result, s')) \<Rightarrow> toArray s' result = Some (Inr [Some 10, Some 21, Some 32, Some 43])
    | _ \<Rightarrow> False)"
proof -
  have c: "call_ok two_lists (Remove 0 1)" by (simp add: two_lists_counts)
  have l: "0 < list_count two_lists" by (simp add: two_lists_counts)
  have m: "LIST (node_heap two_lists 1) = Some 0 \<and> getHead two_lists 0 \<noteq> Some 1 \<and> getTail two_lists 0 \<noteq> Some 1"
    by (simp add: two_lists_def model_defs)
  have e1: "find_dll two_lists 0 (\<lambda>v i l. 15 < v) = Some (Some 20)"
    by (simp add: two_lists_def model_defs)
  have e2: "forEach two_lists 0 (\<lambda>v i l u. u + v * i) 0 = Some 200"
    by (simp add: two_lists_def model_defs)
  have e3: "case map_dll two_lists 0 (\<lambda>v i l. v + i) of
      Some (Inr (result, s')) \<Rightarrow> toArray s' result = Some (Inr [Some 10, Some 21, Some 32, Some 43])
    | _ \<Rightarrow> False"
    by (simp add: two_lists_def model_defs)
  show ?thesis
    using reachable_two_lists c l m e1 e2 e3
      no_crash [OF reachable_two_lists, of "Remove 0 1" 1 0 30 1 "\<lambda>v i l. 15 < v"
        "\<lambda>v i l u. u + v * i" 0 "\<lambda>v i l. v + i"]
    by blast
qed

text \<open>
  C9.  The round trip through the array: a new list constructed from the elements of
  \<^verbatim>\<open>toArray()\<close> has the same array.
\<close>

theorem toArray_roundtrip:
  assumes "reachable s"
  shows "\<exists>xs list2 s'. toArray s this = Some (Inr (map Some xs)) \<and>
           constructor s xs = Inr (list2, s') \<and>
           toArray s' list2 = toArray s this \<and> toArray s' this = toArray s this"
proof -
  from reachable_inv[OF assms] obtain cf where inv: "store_inv s cf" by blast
  let ?xs = "vals s (cf this)"
  have 1: "toArray s this = Some (Inr (map Some ?xs))" by (rule toArray_inv[OF inv])
  from constructor_inv[OF inv, of ?xs] obtain s' new where
    r: "constructor s ?xs = Inr (list_count s, s')"
    and inv': "store_inv s' (cf(list_count s := new))" and e: "ext s s'"
    and v: "vals s' new = ?xs" by blast
  have 2: "toArray s' (list_count s) = Some (Inr (map Some ?xs))"
    using toArray_inv[OF inv', of "list_count s"] v by simp
  have "cf (list_count s) = []" using store_invD(4)[OF inv, of "list_count s"] by simp
  then have cfeq: "(cf(list_count s := new)) this = cf this \<or> (this = list_count s \<and> cf this = [])"
    by auto
  have "vals s' (cf this) = vals s (cf this)" by (rule vals_ext[OF inv e, of _ this]) simp
  then have 3: "this \<noteq> list_count s \<Longrightarrow> toArray s' this = toArray s this"
    using toArray_inv[OF inv', of this] 1 by simp
  have 4: "this = list_count s \<Longrightarrow> toArray s' this = toArray s this"
    using 1 2 v \<open>cf (list_count s) = []\<close> by (simp add: vals_def)
  show ?thesis using 1 2 3 4 r by metis
qed

text \<open>The round trip of \<open>[10, 20, 30, 40]\<close>.\<close>

theorem toArray_roundtrip_witness:
  "reachable two_lists \<and>
   (\<exists>xs list2 s'. toArray two_lists 0 = Some (Inr (map Some xs)) \<and>
           constructor two_lists xs = Inr (list2, s') \<and>
           toArray s' list2 = toArray two_lists 0 \<and> toArray s' 0 = toArray two_lists 0) \<and>
   (case constructor two_lists [10, 20, 30, 40] of
      Inl e \<Rightarrow> False
    | Inr (list2, s') \<Rightarrow> toArray s' list2 = Some (Inr [Some 10, Some 20, Some 30, Some 40]))"
proof -
  have e: "case constructor two_lists [10, 20, 30, 40] of
      Inl e \<Rightarrow> False
    | Inr (list2, s') \<Rightarrow> toArray s' list2 = Some (Inr [Some 10, Some 20, Some 30, Some 40])"
    by (simp add: two_lists_def model_defs)
  show ?thesis
    using reachable_two_lists e toArray_roundtrip [OF reachable_two_lists, of 0]
    by blast
qed

text \<open>
  C10.  For every list, every search element and every negative \<^verbatim>\<open>fromIndex\<close>,
  \<^verbatim>\<open>indexOf(searchElement, fromIndex)\<close> returns what
  \<^verbatim>\<open>indexOf(searchElement, 0)\<close> returns: the skipping loop does not run, so a
  negative \<^verbatim>\<open>fromIndex\<close> is not an offset from the end, and the search starts at the
  head.  \<^verbatim>\<open>includes\<close> inherits this.  This holds in both revisions.
\<close>

theorem indexOf_negative_fromIndex:
  "fromIndex < 0 \<Longrightarrow>
     indexOf s this searchElement fromIndex = indexOf s this searchElement 0 \<and>
     includes_dll s this searchElement fromIndex = includes_dll s this searchElement 0 \<and>
     indexOf_c c this_c searchElement_c fromIndex = indexOf_c c this_c searchElement_c 0 \<and>
     includes_c c this_c searchElement_c fromIndex = includes_c c this_c searchElement_c 0"
  using indexOf_c_negative[of fromIndex c this_c searchElement_c]
  by (simp add: indexOf_def includes_dll_def indexOf_skip_nonpositive)

text \<open>
  On \<^verbatim>\<open>new DoubleLinkedList(1, 2, 3, 2)\<close> the call \<^verbatim>\<open>indexOf(2, -1)\<close> returns
  1, the first occurrence, where \<^verbatim>\<open>Array.prototype.indexOf\<close> would return 3.
\<close>

theorem indexOf_negative_fromIndex_witness:
  "(- 1 :: int) < 0 \<and>
   indexOf (after (0::int) [New [1, 2, 3, 2]]) 0 2 (- 1) = indexOf (after (0::int) [New [1, 2, 3, 2]]) 0 2 0 \<and>
   includes_dll (after (0::int) [New [1, 2, 3, 2]]) 0 2 (- 1) = includes_dll (after (0::int) [New [1, 2, 3, 2]]) 0 2 0 \<and>
   indexOf_c two_lists_c 0 30 (- 1) = indexOf_c two_lists_c 0 30 0 \<and>
   includes_c two_lists_c 0 30 (- 1) = includes_c two_lists_c 0 30 0 \<and>
   indexOf (after (0::int) [New [1, 2, 3, 2]]) 0 2 (- 1) = Some 1 \<and>
   indexOf_c two_lists_c 0 30 (- 1) = Some 2"
proof -
  have e: "indexOf (after (0::int) [New [1, 2, 3, 2]]) 0 2 (- 1) = Some 1"
    by (simp add: model_defs)
  have ec: "indexOf_c two_lists_c 0 30 (- 1) = Some 2"
    by (simp add: two_lists_c_def model_c_defs)
  have n: "(- 1 :: int) < 0" by simp
  show ?thesis
    using n e ec
      indexOf_negative_fromIndex [OF n, of "after (0::int) [New [1, 2, 3, 2]]" 0 "2::int" two_lists_c 0 "30::int"]
    by blast
qed

end
